theory Spec2Isabelle
  imports Complex_Main "HOL-Library.AList"
begin

section \<open>The STEP document walker of explore_step_file.py\<close>

text \<open>
  The class \<open>DocModel\<close> keeps an XCAF document together with two dictionaries built from
  it by \<open>parse_doc\<close>: \<open>part_dict\<close> (uid to positioned shape, name and colour) and
  \<open>label_dict\<close> (uid to entry, name, parent uid and assembly flag). The geometry kernel
  (OCC) is not part of the repository: its shape tool, colour tool and locations appear
  here as data that the walker reads, and the colour tool as a table that it also writes.
  Diagnostic printing (the \<open>verbose\<close> branches and the counter \<open>cnt\<close> that only
  feeds them) changes no variable that the dictionaries depend on and is left out.
\<close>

subsection \<open>Python values\<close>

datatype error = RecursionError | IndexError

text \<open>\<open>str(value)\<close> for a Python int: decimal digits, with a leading minus sign.\<close>

definition digit_char :: "nat \<Rightarrow> char" where
  "digit_char d = ''0123456789'' ! (d mod 10)"

fun str_nat :: "nat \<Rightarrow> string" where
  "str_nat n = (if n < 10 then [digit_char n] else str_nat (n div 10) @ [digit_char (n mod 10)])"

declare str_nat.simps [simp del]

definition str_int :: "int \<Rightarrow> string" where
  "str_int i = (if i < 0 then CHR ''-'' # str_nat (nat (- i)) else str_nat (nat i))"

subsection \<open>The kernel's data\<close>

type_synonym label = nat
type_synonym shape = nat

text \<open>\<open>Quantity_Color(r, g, b, Quantity_TOC_RGB)\<close>.\<close>

datatype color = Quantity_Color real real real

text \<open>
  \<open>BRepBuilderAPI_Transform(shape, loc.Transformation()).Shape()\<close>: the handle of a
  shape positioned by a location.
\<close>

datatype 't located = BRepBuilderAPI_Transform shape 't

text \<open>
  What the walker asks of the document through \<open>shape_tool\<close>, \<open>TDF_Tool.Entry\<close> and
  \<open>GetLabelName\<close>. The type \<open>'t\<close> is \<open>TopLoc_Location\<close>; the empty location
  \<open>TopLoc_Location()\<close> is written \<open>1\<close> and \<open>a.Multiplied(b)\<close> is \<open>a * b\<close>, with
  no law assumed of either.
\<close>

record 't shape_tool =
  GetFreeShapes :: "label list"
  IsAssembly :: "label \<Rightarrow> bool"
  IsSimpleShape :: "label \<Rightarrow> bool"
  IsReference :: "label \<Rightarrow> bool"
  GetComponents :: "label \<Rightarrow> label list"
  GetSubShapes :: "label \<Rightarrow> label list"
  GetReferredShape :: "label \<Rightarrow> label"
  GetLocation :: "label \<Rightarrow> 't"
  GetShape :: "label \<Rightarrow> shape"
  Entry :: "label \<Rightarrow> string"
  GetLabelName :: "label \<Rightarrow> string"

text \<open>
  Modelled from the spec: the kernel's colour table (section 6 of the specification:
  \<open>getInstanceColor(shape, scope) -> Color | absent\<close>, \<open>setInstanceColor(shape, scope,
  Color)\<close>, \<open>getLabelColor(label, scope) -> Color | absent\<close>). The scopes are the
  numbers 0, 1 and 2 that the source passes. A query that fails leaves the colour object
  of the caller as it was; \<open>SetInstanceColor\<close> stores the colour for that shape and scope.
\<close>

record color_tool =
  GetColor :: "label \<Rightarrow> nat \<Rightarrow> color option"
  GetInstanceColor :: "shape \<Rightarrow> nat \<Rightarrow> color option"

definition SetInstanceColor :: "shape \<Rightarrow> nat \<Rightarrow> color \<Rightarrow> color_tool \<Rightarrow> color_tool" where
  "SetInstanceColor s t c ct =
     ct\<lparr>GetInstanceColor := (GetInstanceColor ct)(s := (GetInstanceColor ct s)(t := Some c))\<rparr>"

record 't document =
  shape_tool :: "'t shape_tool"
  color_tool :: color_tool

subsection \<open>The state of a DocModel and of one walk\<close>

record 't part_record =
  p_shape :: "'t located"
  p_name :: string
  p_color :: color

text \<open>
  The dictionary stored for a label. The key \<open>'ref_entry'\<close> is present (with value
  \<open>None\<close>) only in the dictionary of a simple shape.
\<close>

record label_record =
  l_entry :: string
  l_name :: string
  l_parent_uid :: "string option"
  l_ref_entry :: "string option option"
  l_is_assy :: bool

text \<open>
  The fields of \<open>self\<close> (\<open>doc\<close>, \<open>part_dict\<close>, \<open>label_dict\<close>, \<open>_share_dict\<close>,
  \<open>_parent_uid_stack\<close>) and the variables of \<open>parse_doc\<close> that its nested functions
  share (\<open>locs\<close>, \<open>lvl\<close>, \<open>output_shapes\<close>). Dictionaries that are iterated or counted
  are association lists in insertion order. \<open>uid_log\<close> is not a variable of the source:
  it records, in call order, the uids that \<open>_get_uid_from_entry\<close> has returned since
  \<open>parse_doc\<close> was entered, and nothing reads it.
\<close>

record 't state =
  doc :: "'t document"
  part_dict :: "(string \<times> 't part_record) list"
  label_dict :: "(string \<times> label_record) list"
  share_dict :: "string \<rightharpoonup> int"
  parent_uid_stack :: "string option list"
  locs :: "'t list"
  lvl :: int
  output_shapes :: "('t located \<times> string \<times> color) list"
  uid_log :: "string list"

text \<open>\<open>DocModel.__init__\<close>, given the document that \<open>create_doc\<close> returns.\<close>

definition init :: "'t document \<Rightarrow> 't state" where
  "init d = \<lparr>doc = d, part_dict = [], label_dict = [], share_dict = Map.empty,
     parent_uid_stack = [None], locs = [], lvl = 0, output_shapes = [], uid_log = []\<rparr>"

subsection \<open>The uid allocator\<close>

definition get_uid_from_entry :: "string \<Rightarrow> 't state \<Rightarrow> string \<times> 't state" where
  "get_uid_from_entry entry st =
     (let value = (case share_dict st entry of Some v \<Rightarrow> v | None \<Rightarrow> - 1);
          value = value + 1;
          uid = entry @ ''.'' @ str_int value
      in (uid, st\<lparr>share_dict := (share_dict st)(entry \<mapsto> value), uid_log := uid_log st @ [uid]\<rparr>))"

text \<open>The uids returned by successive calls of the allocator, one for each entry given.\<close>

fun allocate_all :: "string list \<Rightarrow> 't state \<Rightarrow> string list" where
  "allocate_all [] st = []"
| "allocate_all (e # es) st =
     (case get_uid_from_entry e st of (uid, st') \<Rightarrow> uid # allocate_all es st')"

subsection \<open>Colour resolution\<close>

text \<open>
  \<open>q(0, c) or q(1, c) or q(2, c)\<close>: the queries run in this order and stop at the first
  that succeeds; the colour found is the one left in \<open>c\<close>.
\<close>

definition first_success :: "(nat \<Rightarrow> color option) \<Rightarrow> color option" where
  "first_success q =
     (case q 0 of Some c \<Rightarrow> Some c
      | None \<Rightarrow> (case q 1 of Some c \<Rightarrow> Some c | None \<Rightarrow> q 2))"

text \<open>The three calls \<open>SetInstanceColor(s, 0, c)\<close>, \<open>(s, 1, c)\<close>, \<open>(s, 2, c)\<close>.\<close>

definition set_instance_colors :: "shape \<Rightarrow> color \<Rightarrow> color_tool \<Rightarrow> color_tool" where
  "set_instance_colors s c ct =
     SetInstanceColor s 2 c (SetInstanceColor s 1 c (SetInstanceColor s 0 c ct))"

definition default_color :: color where
  "default_color = Quantity_Color 0.5 0.5 0.5"

text \<open>Lines 288 to 318: the colour of the shape of a simple-shape label.\<close>

definition shape_color :: "label \<Rightarrow> shape \<Rightarrow> color_tool \<Rightarrow> color \<times> color_tool" where
  "shape_color lab shape ct =
     (case first_success (GetInstanceColor ct shape) of
        Some c \<Rightarrow> (c, set_instance_colors shape c ct)
      | None \<Rightarrow>
         (case first_success (GetColor ct lab) of
            Some c \<Rightarrow> (c, set_instance_colors shape c ct)
          | None \<Rightarrow> (default_color, ct)))"

text \<open>
  Lines 347 to 387: the colour of a sub-shape. The instance colour is read from and
  re-asserted on \<open>shape_sub\<close>; the label colour of \<open>lab_subs\<close> is asserted on \<open>shape\<close>,
  the shape of the enclosing label, as line 375 to 377 have it.
\<close>

definition sub_shape_color ::
  "label \<Rightarrow> shape \<Rightarrow> shape \<Rightarrow> color_tool \<Rightarrow> color \<times> color_tool" where
  "sub_shape_color lab_subs shape_sub shape ct =
     (case first_success (GetInstanceColor ct shape_sub) of
        Some c \<Rightarrow> (c, set_instance_colors shape_sub c ct)
      | None \<Rightarrow>
         (case first_success (GetColor ct lab_subs) of
            Some c \<Rightarrow> (c, set_instance_colors shape c ct)
          | None \<Rightarrow> (default_color, ct)))"

subsection \<open>The recursive walker\<close>

text \<open>\<open>if not k in output_shapes: output_shapes[k] = [name, c]\<close>.\<close>

definition add_output ::
  "'t located \<Rightarrow> string \<Rightarrow> color \<Rightarrow> ('t located \<times> string \<times> color) list
     \<Rightarrow> ('t located \<times> string \<times> color) list" where
  "add_output k name c os = (if k \<in> set (map fst os) then os else os @ [(k, name, c)])"

text \<open>Lines 254 to 338: the label record and the part record of a simple shape.\<close>

definition store_part ::
  "('t::{one,times}) shape_tool \<Rightarrow> label \<Rightarrow> string \<Rightarrow> string option \<Rightarrow> 't state \<Rightarrow> 't state" where
  "store_part tool lab uid parent_uid st =
     (let text_entry = Entry tool lab;
          name = GetLabelName tool lab;
          l_dict = \<lparr>l_entry = text_entry, l_name = name, l_parent_uid = parent_uid,
                    l_ref_entry = Some None, l_is_assy = False\<rparr>;
          st = st\<lparr>label_dict := AList.update uid l_dict (label_dict st)\<rparr>;
          shape = GetShape tool lab;
          loc = foldl (\<lambda>loc l. loc * l) 1 (locs st);
          (c, ct) = shape_color lab shape (color_tool (doc st));
          st = st\<lparr>doc := (doc st)\<lparr>color_tool := ct\<rparr>\<rparr>;
          shape_disp = BRepBuilderAPI_Transform shape loc;
          st = st\<lparr>output_shapes := add_output shape_disp name c (output_shapes st)\<rparr>;
          p_dict = \<lparr>p_shape = shape_disp, p_name = name, p_color = c\<rparr>
      in st\<lparr>part_dict := AList.update uid p_dict (part_dict st)\<rparr>)"

text \<open>Lines 341 to 393: one round of the loop over the sub-shapes of a simple shape.\<close>

definition sub_shape_step ::
  "('t::{one,times}) shape_tool \<Rightarrow> shape \<Rightarrow> 't \<Rightarrow> 't state \<Rightarrow> label \<Rightarrow> 't state" where
  "sub_shape_step tool shape loc st lab_subs =
     (let shape_sub = GetShape tool lab_subs;
          (c, ct) = sub_shape_color lab_subs shape_sub shape (color_tool (doc st));
          st = st\<lparr>doc := (doc st)\<lparr>color_tool := ct\<rparr>\<rparr>;
          shape_to_disp = BRepBuilderAPI_Transform shape_sub loc
      in st\<lparr>output_shapes :=
               add_output shape_to_disp (GetLabelName tool lab_subs) c (output_shapes st)\<rparr>)"

text \<open>The branch \<open>elif shape_tool.IsSimpleShape(lab)\<close>.\<close>

definition simple_shape ::
  "('t::{one,times}) shape_tool \<Rightarrow> label \<Rightarrow> string \<Rightarrow> string option \<Rightarrow> 't state \<Rightarrow> 't state" where
  "simple_shape tool lab uid parent_uid st =
     foldl (sub_shape_step tool (GetShape tool lab) (foldl (\<lambda>loc l. loc * l) 1 (locs st)))
       (store_part tool lab uid parent_uid st) (GetSubShapes tool lab)"

text \<open>Lines 188 to 193: the label record of an assembly, which becomes the parent.\<close>

definition assembly ::
  "'t shape_tool \<Rightarrow> label \<Rightarrow> string \<Rightarrow> string option \<Rightarrow> 't state \<Rightarrow> 't state" where
  "assembly tool lab uid parent_uid st =
     (let l_dict = \<lparr>l_entry = Entry tool lab, l_name = GetLabelName tool lab,
                    l_parent_uid = parent_uid, l_ref_entry = None, l_is_assy = True\<rparr>;
          st = st\<lparr>label_dict := AList.update uid l_dict (label_dict st)\<rparr>
      in st\<lparr>parent_uid_stack := parent_uid_stack st @ [Some uid]\<rparr>)"

text \<open>
  Lines 199 to 242: a uid is drawn for the entry of the component, and its location is
  appended to \<open>locs\<close> before the walker descends into the label it refers to.
\<close>

definition enter_component :: "'t shape_tool \<Rightarrow> label \<Rightarrow> 't state \<Rightarrow> 't state" where
  "enter_component tool label st =
     (case get_uid_from_entry (Entry tool label) st of
        (uid, st) \<Rightarrow>
          (let loc = GetLocation tool label;
               st = st\<lparr>locs := locs st @ [loc]\<rparr>
           in st\<lparr>lvl := lvl st + 1\<rparr>))"

text \<open>\<open>while len(self._parent_uid_stack) > lvl+2: self._parent_uid_stack.pop()\<close>.\<close>

function trim :: "int \<Rightarrow> 'a list \<Rightarrow> error + 'a list" where
  "trim l stack =
     (if int (length stack) > l + 2
      then (if stack = [] then Inl IndexError else trim l (butlast stack))
      else Inr stack)"
  by pat_completeness auto
termination
  by (relation "measure (\<lambda>(l, stack). length stack)") auto

declare trim.simps [simp del]

text \<open>Lines 246 to 252, after the recursive call has returned.\<close>

definition leave_component :: "'t state \<Rightarrow> error + 't state" where
  "leave_component st =
     (let st = st\<lparr>lvl := lvl st - 1\<rparr>
      in if locs st = [] then Inl IndexError
         else (let st = st\<lparr>locs := butlast (locs st)\<rparr>
               in case trim (lvl st) (parent_uid_stack st) of
                    Inl e \<Rightarrow> Inl e
                  | Inr stack \<Rightarrow> Inr (st\<lparr>parent_uid_stack := stack\<rparr>)))"

text \<open>
  \<open>_get_sub_shapes(lab, loc)\<close>; its parameter \<open>loc\<close> is never read. The first argument
  is the number of nested calls that the interpreter still allows: a document whose
  references go deeper, or round in a circle, ends the walk with \<open>RecursionError\<close>.
  \<open>components_loop\<close> is the \<open>for\<close> loop over the components of an assembly.
\<close>

fun get_sub_shapes ::
  "nat \<Rightarrow> ('t::{one,times}) shape_tool \<Rightarrow> label \<Rightarrow> 't state \<Rightarrow> error + 't state"
and components_loop ::
  "nat \<Rightarrow> ('t::{one,times}) shape_tool \<Rightarrow> label list \<Rightarrow> 't state \<Rightarrow> error + 't state" where
  "get_sub_shapes 0 tool lab st = Inl RecursionError"
| "get_sub_shapes (Suc n) tool lab st =
     (case get_uid_from_entry (Entry tool lab) st of
        (uid, st) \<Rightarrow>
          (if parent_uid_stack st = [] then Inl IndexError
           else (let parent_uid = last (parent_uid_stack st)
                 in if IsAssembly tool lab
                    then components_loop n tool (GetComponents tool lab)
                           (assembly tool lab uid parent_uid st)
                    else if IsSimpleShape tool lab
                    then Inr (simple_shape tool lab uid parent_uid st)
                    else Inr st)))"
| "components_loop n tool [] st = Inr st"
| "components_loop n tool (label # rest) st =
     (if IsReference tool label
      then (case get_sub_shapes n tool (GetReferredShape tool label) (enter_component tool label st) of
              Inl e \<Rightarrow> Inl e
            | Inr st \<Rightarrow>
               (case leave_component st of
                  Inl e \<Rightarrow> Inl e
                | Inr st \<Rightarrow> components_loop n tool rest st))
      else components_loop n tool rest st)"

subsection \<open>The root scan, parse_doc and load_stp\<close>

text \<open>The loop of \<open>_get_shapes\<close> over the free shapes.\<close>

fun get_shapes ::
  "nat \<Rightarrow> ('t::{one,times}) shape_tool \<Rightarrow> label list \<Rightarrow> 't state \<Rightarrow> error + 't state" where
  "get_shapes n tool [] st = Inr st"
| "get_shapes n tool (root_item # rest) st =
     (case get_sub_shapes n tool root_item st of
        Inl e \<Rightarrow> Inl e
      | Inr st \<Rightarrow> get_shapes n tool rest st)"

text \<open>
  \<open>parse_doc\<close>: the tools are taken from \<open>self.doc\<close>, the local variables start empty,
  and the free shapes are walked. The value returned by the source is the field
  \<open>output_shapes\<close> of the result.
\<close>

definition parse_doc :: "nat \<Rightarrow> ('t::{one,times}) state \<Rightarrow> error + 't state" where
  "parse_doc n st =
     (let tool = shape_tool (doc st);
          st = st\<lparr>locs := [], lvl := 0, output_shapes := [], uid_log := []\<rparr>
      in get_shapes n tool (GetFreeShapes tool) st)"

text \<open>
  \<open>load_stp\<close>. \<open>ReadFile f\<close> is \<open>Some d\<close> when the reader's status is
  \<open>IFSelect_RetDone\<close>, \<open>d\<close> being the document after \<open>Transfer\<close>; otherwise the
  document stays as \<open>TDocStd_Document\<close> constructed it, which is \<open>new_doc\<close>. The
  file name is \<open>None\<close> or a string.
\<close>

fun load_stp ::
  "(string \<Rightarrow> ('t::{one,times}) document option) \<Rightarrow> 't document \<Rightarrow> nat \<Rightarrow> string option
     \<Rightarrow> 't state \<Rightarrow> error + 't state" where
  "load_stp ReadFile new_doc n None st = Inr st"
| "load_stp ReadFile new_doc n (Some filename) st =
     (if filename = [] then Inr st
      else (let d = (case ReadFile filename of Some d \<Rightarrow> d | None \<Rightarrow> new_doc)
            in parse_doc n (st\<lparr>doc := d\<rparr>)))"

subsection \<open>Notions used to state the properties\<close>

text \<open>The uid made of an entry and a serial number, and the last serial used for an entry.\<close>

definition uid_of :: "string \<Rightarrow> int \<Rightarrow> string" where
  "uid_of e v = e @ ''.'' @ str_int v"

definition serial :: "'t state \<Rightarrow> string \<Rightarrow> int" where
  "serial st e = (case share_dict st e of Some v \<Rightarrow> v | None \<Rightarrow> - 1)"

text \<open>The number that a string of decimal digits denotes.\<close>

definition digits_value :: "string \<Rightarrow> nat" where
  "digits_value s = foldl (\<lambda>a c. 10 * a + (of_char c - 48)) 0 s"

subsection \<open>Example documents\<close>

text \<open>
  A concrete type of locations, for the examples: a location is the sequence of the
  elementary moves composed in it, the empty location has none, and multiplying puts the
  moves of the right operand after those of the left.
\<close>

datatype moves = Moves "nat list"

instantiation moves :: "{one,times}"
begin
definition one_moves :: moves where
  "one_moves = Moves []"
definition times_moves :: "moves \<Rightarrow> moves \<Rightarrow> moves" where
  "times_moves a b = (case a of Moves xs \<Rightarrow> (case b of Moves ys \<Rightarrow> Moves (xs @ ys)))"
instance ..
end

definition no_labels :: "moves shape_tool" where
  "no_labels = \<lparr>GetFreeShapes = [], IsAssembly = (\<lambda>_. False), IsSimpleShape = (\<lambda>_. False),
     IsReference = (\<lambda>_. False), GetComponents = (\<lambda>_. []), GetSubShapes = (\<lambda>_. []),
     GetReferredShape = (\<lambda>_. 0), GetLocation = (\<lambda>_. 1), GetShape = (\<lambda>_. 0),
     Entry = (\<lambda>_. []), GetLabelName = (\<lambda>_. [])\<rparr>"

definition no_colors :: color_tool where
  "no_colors = \<lparr>GetColor = (\<lambda>_ _. None), GetInstanceColor = (\<lambda>_ _. None)\<rparr>"

text \<open>A document without any label.\<close>

definition blank_doc :: "moves document" where
  "blank_doc = \<lparr>shape_tool = no_labels, color_tool = no_colors\<rparr>"

text \<open>
  A document with one free label, number 1, that is a simple shape; the shape of label
  \<open>l\<close> is \<open>10 + l\<close>. The sub-shape labels of label 1 and the colour table are given.
\<close>

definition one_part :: "color_tool \<Rightarrow> label list \<Rightarrow> moves document" where
  "one_part ct subs = \<lparr>shape_tool = no_labels\<lparr>GetFreeShapes := [1],
       IsSimpleShape := (\<lambda>l. l = 1),
       GetSubShapes := (\<lambda>l. if l = 1 then subs else []),
       GetShape := (\<lambda>l. 10 + l),
       Entry := (\<lambda>l. if l = 1 then ''0:1:1:1'' else ''0:1:1:1:1''),
       GetLabelName := (\<lambda>l. if l = 1 then ''part'' else ''face'')\<rparr>,
     color_tool = ct\<rparr>"

definition red :: color where "red = Quantity_Color 1 0 0"
definition green :: color where "green = Quantity_Color 0 1 0"
definition blue :: color where "blue = Quantity_Color 0 0 1"

definition label_blue :: color_tool where
  "label_blue = no_colors\<lparr>GetColor := (\<lambda>l t. if l = 1 \<and> t = 2 then Some blue else None)\<rparr>"

definition instance_green_label_blue :: color_tool where
  "instance_green_label_blue =
     label_blue\<lparr>GetInstanceColor := (\<lambda>s t. if s = 11 \<and> t = 1 then Some green else None)\<rparr>"

definition label_blue_face_red :: color_tool where
  "label_blue_face_red =
     no_colors\<lparr>GetColor := (\<lambda>l t. if l = 1 \<and> t = 2 then Some blue
                                  else if l = 2 \<and> t = 0 then Some red else None)\<rparr>"

text \<open>
  An assembly (label 1) with two components: label 2 refers to a sub-assembly (label 5)
  whose only component, label 6, refers to the part (label 4), and label 3 refers to the
  part directly. The location of a component is the single move that bears its number.
\<close>

definition nested :: "moves document" where
  "nested = \<lparr>shape_tool = no_labels\<lparr>GetFreeShapes := [1],
       IsAssembly := (\<lambda>l. l = 1 \<or> l = 5), IsSimpleShape := (\<lambda>l. l = 4),
       IsReference := (\<lambda>l. l = 2 \<or> l = 3 \<or> l = 6),
       GetComponents := (\<lambda>l. if l = 1 then [2, 3] else if l = 5 then [6] else []),
       GetReferredShape := (\<lambda>l. if l = 2 then 5 else 4),
       GetLocation := (\<lambda>l. Moves [l]),
       GetShape := (\<lambda>l. 7),
       Entry := (\<lambda>l. if l = 1 then ''0:1:1:1'' else if l = 2 then ''0:1:1:1:1''
                   else if l = 3 then ''0:1:1:1:2'' else if l = 4 then ''0:1:1:2''
                   else if l = 5 then ''0:1:1:3'' else ''0:1:1:3:1''),
       GetLabelName := (\<lambda>l. if l = 1 then ''Top'' else if l = 5 then ''sub'' else ''part'')\<rparr>,
     color_tool = no_colors\<rparr>"

text \<open>Two free labels: an assembly without components, then a simple shape.\<close>

definition two_roots :: "moves document" where
  "two_roots = \<lparr>shape_tool = no_labels\<lparr>GetFreeShapes := [1, 2],
       IsAssembly := (\<lambda>l. l = 1), IsSimpleShape := (\<lambda>l. l = 2),
       Entry := (\<lambda>l. if l = 1 then ''0:1:1:1'' else ''0:1:1:2''),
       GetLabelName := (\<lambda>l. if l = 1 then ''asm'' else ''part'')\<rparr>,
     color_tool = no_colors\<rparr>"

text \<open>
  Invariant of a walk: the uids logged so far are pairwise distinct and each is made of
  an entry and a serial number not above the last one used for that entry.
\<close>

definition log_ok :: "'t state \<Rightarrow> bool" where
  "log_ok st \<longleftrightarrow> distinct (uid_log st)
     \<and> (\<forall>u \<in> set (uid_log st). \<exists>e v. u = uid_of e v \<and> v \<le> serial st e)"

text \<open>
  \<open>descend tool a rs\<close> follows the reference labels \<open>rs\<close> downwards from the label
  \<open>a\<close>, as the walker does: each must be a reference among the components of the
  assembly reached so far, and leads to the label it refers to.
\<close>

fun descend :: "'t shape_tool \<Rightarrow> label \<Rightarrow> label list \<Rightarrow> label option" where
  "descend tool a [] = Some a"
| "descend tool a (r # rs) =
     (if IsAssembly tool a \<and> r \<in> set (GetComponents tool a) \<and> IsReference tool r
      then descend tool (GetReferredShape tool r) rs else None)"

text \<open>
  A leaf at the end of a path: a label that the walker treats as a simple shape (it is
  one, and is not an assembly), reached from \<open>a\<close> through the reference labels
  \<open>rs\<close>.
\<close>

definition leaf_at :: "'t shape_tool \<Rightarrow> label \<Rightarrow> label list \<Rightarrow> label \<Rightarrow> bool" where
  "leaf_at tool a rs lab \<longleftrightarrow>
     descend tool a rs = Some lab \<and> IsSimpleShape tool lab \<and> \<not> IsAssembly tool lab"

text \<open>
  A part record is on a path when its shape is the shape of a simple-shape label, reached
  from a free shape through reference labels, positioned by the product of the locations
  of those labels in root-to-leaf order.
\<close>

definition on_path :: "('t::{one,times}) shape_tool \<Rightarrow> 't part_record \<Rightarrow> bool" where
  "on_path tool p \<longleftrightarrow>
     (\<exists>root_item \<in> set (GetFreeShapes tool). \<exists>rs lab.
        leaf_at tool root_item rs lab
        \<and> p_shape p = BRepBuilderAPI_Transform (GetShape tool lab)
                        (foldl (\<lambda>loc l. loc * l) 1 (map (GetLocation tool) rs)))"

definition placed :: "('t::{one,times}) shape_tool \<Rightarrow> 't state \<Rightarrow> 't state \<Rightarrow> bool" where
  "placed tool st0 st \<longleftrightarrow>
     (\<forall>u p. map_of (part_dict st) u = Some p \<longrightarrow> map_of (part_dict st0) u = Some p \<or> on_path tool p)"

text \<open>
  Relations between the state before and after a piece of the walk. \<open>extends\<close>: the
  log stays well formed and only grows, and the part records stored under uids that were
  already logged are kept. \<open>covered\<close>: a uid logged in between keys a part record
  whose shape is that of the label, positioned by the product of the given locations.
  \<open>walked\<close>, \<open>looped\<close> and \<open>scanned\<close> say what a call of the walker, a run of
  the loop over components and the scan of the free shapes achieve: every leaf below is
  covered, with the locations of the path appended to \<open>locs\<close>, and \<open>locs\<close> is
  as before.
\<close>

definition covered ::
  "('t::{one,times}) shape_tool \<Rightarrow> 't state \<Rightarrow> 't state \<Rightarrow> label \<Rightarrow> 't list \<Rightarrow> bool" where
  "covered tool st st' lab ls \<longleftrightarrow>
     (\<exists>u p. u \<in> set (uid_log st') \<and> u \<notin> set (uid_log st) \<and> map_of (part_dict st') u = Some p
        \<and> p_shape p = BRepBuilderAPI_Transform (GetShape tool lab) (foldl (\<lambda>loc l. loc * l) 1 ls))"

definition extends :: "'t state \<Rightarrow> 't state \<Rightarrow> bool" where
  "extends st st' \<longleftrightarrow> log_ok st' \<and> set (uid_log st) \<subseteq> set (uid_log st')
     \<and> (\<forall>u \<in> set (uid_log st). map_of (part_dict st') u = map_of (part_dict st) u)"

definition walked ::
  "('t::{one,times}) shape_tool \<Rightarrow> label \<Rightarrow> 't state \<Rightarrow> 't state \<Rightarrow> bool" where
  "walked tool a st st' \<longleftrightarrow> extends st st' \<and> locs st' = locs st
     \<and> (\<forall>rs lab. leaf_at tool a rs lab \<longrightarrow>
           covered tool st st' lab (locs st @ map (GetLocation tool) rs))"

definition looped ::
  "('t::{one,times}) shape_tool \<Rightarrow> label list \<Rightarrow> 't state \<Rightarrow> 't state \<Rightarrow> bool" where
  "looped tool ls st st' \<longleftrightarrow> extends st st' \<and> locs st' = locs st
     \<and> (\<forall>r rs lab. r \<in> set ls \<longrightarrow> IsReference tool r \<longrightarrow>
           leaf_at tool (GetReferredShape tool r) rs lab \<longrightarrow>
           covered tool st st' lab (locs st @ GetLocation tool r # map (GetLocation tool) rs))"

definition scanned ::
  "('t::{one,times}) shape_tool \<Rightarrow> label list \<Rightarrow> 't state \<Rightarrow> 't state \<Rightarrow> bool" where
  "scanned tool roots st st' \<longleftrightarrow> extends st st' \<and> locs st' = []
     \<and> (\<forall>r rs lab. r \<in> set roots \<longrightarrow> leaf_at tool r rs lab \<longrightarrow>
           covered tool st st' lab (map (GetLocation tool) rs))"

text \<open>
  \<open>depth_within tool k a\<close>: the walk from the label \<open>a\<close> needs at most \<open>k\<close>
  nested calls of the walker, that is, no chain of references below \<open>a\<close> passes
  through \<open>k\<close> assemblies or more. \<open>returned\<close> says that a call ended
  normally and left the parent stack non-empty and \<open>lvl\<close> and \<open>locs\<close> as
  they were.
\<close>

fun depth_within :: "'t shape_tool \<Rightarrow> nat \<Rightarrow> label \<Rightarrow> bool" where
  "depth_within tool 0 a = False"
| "depth_within tool (Suc k) a =
     (IsAssembly tool a \<longrightarrow>
        (\<forall>r \<in> set (GetComponents tool a). IsReference tool r \<longrightarrow>
           depth_within tool k (GetReferredShape tool r)))"

definition returned :: "'t state \<Rightarrow> (error + 't state) \<Rightarrow> bool" where
  "returned st res \<longleftrightarrow>
     (\<exists>st'. res = Inr st' \<and> parent_uid_stack st' \<noteq> [] \<and> lvl st' = lvl st \<and> locs st' = locs st)"

text \<open>
  What becomes of a uid that the allocator returns during a walk: a label record is
  stored under the uid drawn at the visit of an assembly or of a simple shape (lines 192
  and 260); the uid drawn for a component reference (line 202) is assigned to \<open>uid\<close>
  and not used again; the uid drawn at the visit of a label of neither kind is not used
  either. \<open>uid_uses n tool a\<close> lists these uses in the order in which the walk
  from \<open>a\<close> draws its uids, \<open>n\<close> nested calls being allowed, and
  \<open>recorded_uids new uses\<close> selects from the uids \<open>new\<close> those whose use is
  \<open>Recorded\<close>.
\<close>

datatype uid_use = Recorded | ForReference | Unrecorded

fun uid_uses :: "nat \<Rightarrow> 't shape_tool \<Rightarrow> label \<Rightarrow> uid_use list"
and uid_uses_loop :: "nat \<Rightarrow> 't shape_tool \<Rightarrow> label list \<Rightarrow> uid_use list" where
  "uid_uses 0 tool a = []"
| "uid_uses (Suc n) tool a =
     (if IsAssembly tool a then Recorded # uid_uses_loop n tool (GetComponents tool a)
      else if IsSimpleShape tool a then [Recorded] else [Unrecorded])"
| "uid_uses_loop n tool [] = []"
| "uid_uses_loop n tool (r # rs) =
     (if IsReference tool r
      then ForReference # uid_uses n tool (GetReferredShape tool r) @ uid_uses_loop n tool rs
      else uid_uses_loop n tool rs)"

definition recorded_uids :: "string list \<Rightarrow> uid_use list \<Rightarrow> string list" where
  "recorded_uids new uses = map fst (filter (\<lambda>p. snd p = Recorded) (zip new uses))"

text \<open>
  \<open>table_ok\<close>: the log is well formed, the keys of the label dictionary are pairwise
  distinct, and each key is a uid that the allocator has issued (an entry with a serial
  number not above the last one used for it). \<open>logged st st' uses\<close>: between the
  two states as many uids were logged as \<open>uses\<close> has members, none of them was a key
  of the label dictionary before, and the label dictionary gained exactly the keys of
  those whose use is \<open>Recorded\<close>, in this order.
\<close>

definition table_ok :: "'t state \<Rightarrow> bool" where
  "table_ok st \<longleftrightarrow> log_ok st \<and> distinct (map fst (label_dict st))
     \<and> (\<forall>k \<in> fst ` set (label_dict st). \<exists>e v. k = uid_of e v \<and> v \<le> serial st e)"

definition logged :: "'t state \<Rightarrow> 't state \<Rightarrow> uid_use list \<Rightarrow> bool" where
  "logged st st' uses \<longleftrightarrow> table_ok st'
     \<and> (\<exists>new. uid_log st' = uid_log st @ new \<and> length new = length uses
           \<and> set new \<inter> fst ` set (label_dict st) = {}
           \<and> map fst (label_dict st') = map fst (label_dict st) @ recorded_uids new uses)"

section \<open>Properties\<close>

subsection \<open>Decimal strings and uids\<close>

lemma digit_cases:
  "d < 10 \<Longrightarrow> d = 0 \<or> d = 1 \<or> d = 2 \<or> d = 3 \<or> d = 4 \<or> d = 5 \<or> d = 6 \<or> d = 7 \<or> d = 8 \<or> d = (9::nat)"
  by arith

lemma of_char_digit_char: "d < 10 \<Longrightarrow> of_char (digit_char d) = 48 + d"
  using digit_cases [of d] by (auto simp: digit_char_def)

lemma digits_value_str_nat: "digits_value (str_nat n) = n"
proof (induction n rule: str_nat.induct)
  case (1 n)
  show ?case
  proof (cases "n < 10")
    case True
    then show ?thesis
      by (simp add: str_nat.simps [of n] digits_value_def of_char_digit_char)
  next
    case False
    with 1 have "digits_value (str_nat (n div 10)) = n div 10" by simp
    with False show ?thesis
      by (simp add: str_nat.simps [of n] digits_value_def of_char_digit_char)
  qed
qed

lemma str_nat_inj: "str_nat m = str_nat n \<Longrightarrow> m = n"
  by (metis digits_value_str_nat)

lemma digit_char_not_sign: "digit_char d \<noteq> CHR ''.''" "digit_char d \<noteq> CHR ''-''"
  using digit_cases [of "d mod 10"] by (auto simp: digit_char_def)

lemma str_nat_chars: "c \<in> set (str_nat n) \<Longrightarrow> c \<noteq> CHR ''.'' \<and> c \<noteq> CHR ''-''"
proof (induction n rule: str_nat.induct)
  case (1 n)
  then show ?case
    by (cases "n < 10") (auto simp: str_nat.simps [of n] digit_char_not_sign)
qed

lemma str_nat_not_Nil: "str_nat n \<noteq> []"
  by (simp add: str_nat.simps [of n])

lemma str_int_inj:
  assumes h: "str_int i = str_int j"
  shows "i = j"
proof -
  have no_minus: "hd (str_nat n) \<noteq> CHR ''-''" for n
    using str_nat_chars [of "hd (str_nat n)" n] str_nat_not_Nil [of n] by simp
  show ?thesis
  proof (cases "i < 0"; cases "j < 0")
    assume "i < 0" "j < 0"
    with h have "nat (- i) = nat (- j)" by (simp add: str_int_def str_nat_inj)
    with \<open>i < 0\<close> \<open>j < 0\<close> show ?thesis by simp
  next
    assume "i < 0" "\<not> j < 0"
    with h have "CHR ''-'' # str_nat (nat (- i)) = str_nat (nat j)" by (simp add: str_int_def)
    then have "hd (str_nat (nat j)) = CHR ''-''" by (metis list.sel(1))
    with no_minus show ?thesis by blast
  next
    assume "\<not> i < 0" "j < 0"
    with h have "CHR ''-'' # str_nat (nat (- j)) = str_nat (nat i)" by (simp add: str_int_def)
    then have "hd (str_nat (nat i)) = CHR ''-''" by (metis list.sel(1))
    with no_minus show ?thesis by blast
  next
    assume "\<not> i < 0" "\<not> j < 0"
    with h have "nat i = nat j" by (simp add: str_int_def str_nat_inj)
    with \<open>\<not> i < 0\<close> \<open>\<not> j < 0\<close> show ?thesis by simp
  qed
qed

lemma str_int_no_dot: "CHR ''.'' \<notin> set (str_int i)"
  using str_nat_chars by (auto simp: str_int_def)

lemma split_at_last:
  assumes "xs @ a # ys = xs' @ a # ys'" "a \<notin> set ys" "a \<notin> set ys'"
  shows "xs = xs' \<and> ys = ys'"
proof -
  have "takeWhile (\<lambda>c. c \<noteq> a) (rev (xs @ a # ys)) = rev ys"
    using assms(2) by (simp add: takeWhile_append)
  moreover have "takeWhile (\<lambda>c. c \<noteq> a) (rev (xs' @ a # ys')) = rev ys'"
    using assms(3) by (simp add: takeWhile_append)
  ultimately have "ys = ys'" using assms(1) by simp
  with assms(1) show ?thesis by simp
qed

lemma uid_of_inj: "uid_of e v = uid_of e' v' \<Longrightarrow> e = e' \<and> v = v'"
  unfolding uid_of_def using split_at_last [of e "CHR ''.''" "str_int v" e' "str_int v'"]
  by (auto simp: str_int_no_dot dest: str_int_inj)

subsection \<open>The allocator\<close>

lemma get_uid_from_entry_eq:
  "get_uid_from_entry e st =
     (uid_of e (serial st e + 1),
      st\<lparr>share_dict := (share_dict st)(e \<mapsto> serial st e + 1),
         uid_log := uid_log st @ [uid_of e (serial st e + 1)]\<rparr>)"
  by (simp add: get_uid_from_entry_def uid_of_def serial_def Let_def)

lemma serial_after:
  "serial (snd (get_uid_from_entry e st)) e' = (if e' = e then serial st e + 1 else serial st e')"
  by (simp add: get_uid_from_entry_eq serial_def)

lemma allocate_all_above:
  "u \<in> set (allocate_all es st) \<Longrightarrow> \<exists>e v. u = uid_of e v \<and> serial st e < v"
proof (induction es arbitrary: st)
  case Nil
  then show ?case by simp
next
  case (Cons a es)
  let ?st' = "snd (get_uid_from_entry a st)"
  from Cons.prems have "u = uid_of a (serial st a + 1) \<or> u \<in> set (allocate_all es ?st')"
    by (auto simp: get_uid_from_entry_eq)
  then show ?case
  proof
    assume "u = uid_of a (serial st a + 1)"
    then show ?thesis by (intro exI [of _ a] exI [of _ "serial st a + 1"]) simp
  next
    assume "u \<in> set (allocate_all es ?st')"
    from Cons.IH [OF this] obtain e v where ev: "u = uid_of e v" "serial ?st' e < v" by blast
    then have "serial st e < v" by (simp add: serial_after split: if_splits)
    with ev show ?thesis by blast
  qed
qed

lemma allocate_all_distinct: "distinct (allocate_all es st)"
proof (induction es arbitrary: st)
  case Nil
  then show ?case by simp
next
  case (Cons a es)
  let ?st' = "snd (get_uid_from_entry a st)"
  have "uid_of a (serial st a + 1) \<notin> set (allocate_all es ?st')"
  proof
    assume "uid_of a (serial st a + 1) \<in> set (allocate_all es ?st')"
    from allocate_all_above [OF this] obtain e v
      where ev: "uid_of a (serial st a + 1) = uid_of e v" "serial ?st' e < v" by blast
    from uid_of_inj [OF ev(1)] have "a = e" "v = serial st a + 1" by auto
    with ev(2) show False by (simp add: serial_after)
  qed
  with Cons.IH [of ?st'] show ?case by (simp add: get_uid_from_entry_eq)
qed

text \<open>
  C4. A call of the allocator returns the entry, a dot and the serial number in decimal,
  where the serial number is 0 when the entry is not yet in the map and one more than
  the stored number otherwise, and stores that serial number for the entry. Whatever
  entries are asked for, in whatever order and from whatever map, the uids returned by
  the successive calls are pairwise distinct.
\<close>

theorem uid_allocator_serials_and_distinct:
  "fst (get_uid_from_entry e st)
     = e @ ''.'' @ str_int (case share_dict st e of None \<Rightarrow> 0 | Some k \<Rightarrow> k + 1)
   \<and> share_dict (snd (get_uid_from_entry e st))
     = (share_dict st)(e \<mapsto> (case share_dict st e of None \<Rightarrow> 0 | Some k \<Rightarrow> k + 1))
   \<and> distinct (allocate_all es st)"
  by (simp add: allocate_all_distinct get_uid_from_entry_def Let_def split: option.splits)

subsection \<open>Loading\<close>

text \<open>
  C10. Called with a file name that is \<open>None\<close> or the empty string, \<open>load_stp\<close>
  returns at once: the state it leaves is the state it found (document, both
  dictionaries and the serial map included), whatever the reader would have done and even
  when no nested call at all is allowed, so \<open>parse_doc\<close> is not run.
\<close>

theorem load_stp_no_filename:
  "load_stp ReadFile new_doc n None st = Inr st
   \<and> load_stp ReadFile new_doc n (Some []) st = Inr st"
  by simp

text \<open>
  C9. When the reader does not report success, and the document that was constructed
  for the transfer has no free shape, \<open>load_stp\<close> ends normally for every recursion
  allowance: the part and label dictionaries are as they were (empty when they were
  empty), the document is the untouched new one, and no shape is returned for display.
\<close>

theorem load_stp_failed_read:
  assumes "ReadFile filename = None" and "filename \<noteq> []"
    and "GetFreeShapes (shape_tool new_doc) = []"
  shows "case load_stp ReadFile new_doc n (Some filename) st of
           Inl e \<Rightarrow> False
         | Inr st' \<Rightarrow> part_dict st' = part_dict st \<and> label_dict st' = label_dict st
             \<and> doc st' = new_doc \<and> output_shapes st' = []"
  using assms by (simp add: parse_doc_def)

theorem load_stp_failed_read_witness:
  "case load_stp (\<lambda>f. None) blank_doc 0 (Some ''missing.step'') (init blank_doc) of
     Inl e \<Rightarrow> False
   | Inr st' \<Rightarrow> part_dict st' = [] \<and> label_dict st' = []
       \<and> doc st' = blank_doc \<and> output_shapes st' = []"
proof -
  have free: "GetFreeShapes (shape_tool blank_doc) = []"
    by (simp add: blank_doc_def no_labels_def)
  have "case load_stp (\<lambda>f. None) blank_doc 0 (Some ''missing.step'') (init blank_doc) of
          Inl e \<Rightarrow> False
        | Inr st' \<Rightarrow> part_dict st' = part_dict (init blank_doc)
            \<and> label_dict st' = label_dict (init blank_doc)
            \<and> doc st' = blank_doc \<and> output_shapes st' = []"
    by (rule load_stp_failed_read) (simp_all add: free)
  moreover have "part_dict (init blank_doc) = []" "label_dict (init blank_doc) = []"
    by (simp_all add: init_def)
  ultimately show ?thesis by (simp split: sum.splits)
qed

subsection \<open>The colour table and the simple-shape branch\<close>

lemma GetColor_SetInstanceColor [simp]: "GetColor (SetInstanceColor s t c ct) = GetColor ct"
  by (simp add: SetInstanceColor_def)

lemma GetInstanceColor_SetInstanceColor:
  "GetInstanceColor (SetInstanceColor s t c ct) s' t' =
     (if s' = s \<and> t' = t then Some c else GetInstanceColor ct s' t')"
  by (simp add: SetInstanceColor_def)

lemma GetColor_set_instance_colors [simp]: "GetColor (set_instance_colors s c ct) = GetColor ct"
  by (simp add: set_instance_colors_def)

lemma GetInstanceColor_set_instance_colors:
  "GetInstanceColor (set_instance_colors s c ct) s' t =
     (if s' = s \<and> (t = 0 \<or> t = 1 \<or> t = 2) then Some c else GetInstanceColor ct s' t)"
  by (auto simp: set_instance_colors_def GetInstanceColor_SetInstanceColor)

lemma first_success_set_instance_colors:
  "first_success (GetInstanceColor (set_instance_colors s c ct) s) = Some c"
  by (simp add: first_success_def GetInstanceColor_set_instance_colors)

lemma first_success_all_scopes:
  "q 0 = Some c \<Longrightarrow> first_success q = Some c"
  by (simp add: first_success_def)

text \<open>What the sub-shape loop leaves alone.\<close>

lemma sub_shape_step_frame:
  "part_dict (sub_shape_step tool shape loc st l) = part_dict st"
  "label_dict (sub_shape_step tool shape loc st l) = label_dict st"
  "share_dict (sub_shape_step tool shape loc st l) = share_dict st"
  "parent_uid_stack (sub_shape_step tool shape loc st l) = parent_uid_stack st"
  "locs (sub_shape_step tool shape loc st l) = locs st"
  "lvl (sub_shape_step tool shape loc st l) = lvl st"
  "uid_log (sub_shape_step tool shape loc st l) = uid_log st"
  "shape_tool (doc (sub_shape_step tool shape loc st l)) = shape_tool (doc st)"
  "GetColor (color_tool (doc (sub_shape_step tool shape loc st l))) = GetColor (color_tool (doc st))"
  by (simp_all add: sub_shape_step_def sub_shape_color_def Let_def split: prod.splits option.splits)

lemma sub_shapes_frame:
  "part_dict (foldl (sub_shape_step tool shape loc) st ls) = part_dict st
   \<and> label_dict (foldl (sub_shape_step tool shape loc) st ls) = label_dict st
   \<and> share_dict (foldl (sub_shape_step tool shape loc) st ls) = share_dict st
   \<and> parent_uid_stack (foldl (sub_shape_step tool shape loc) st ls) = parent_uid_stack st
   \<and> locs (foldl (sub_shape_step tool shape loc) st ls) = locs st
   \<and> lvl (foldl (sub_shape_step tool shape loc) st ls) = lvl st
   \<and> uid_log (foldl (sub_shape_step tool shape loc) st ls) = uid_log st
   \<and> GetColor (color_tool (doc (foldl (sub_shape_step tool shape loc) st ls)))
        = GetColor (color_tool (doc st))"
  by (induction ls arbitrary: st) (simp_all add: sub_shape_step_frame)

lemma store_part_frame:
  "share_dict (store_part tool lab uid par st) = share_dict st"
  "parent_uid_stack (store_part tool lab uid par st) = parent_uid_stack st"
  "locs (store_part tool lab uid par st) = locs st"
  "lvl (store_part tool lab uid par st) = lvl st"
  "uid_log (store_part tool lab uid par st) = uid_log st"
  "label_dict (store_part tool lab uid par st) =
     AList.update uid \<lparr>l_entry = Entry tool lab, l_name = GetLabelName tool lab,
       l_parent_uid = par, l_ref_entry = Some None, l_is_assy = False\<rparr> (label_dict st)"
  "part_dict (store_part tool lab uid par st) =
     AList.update uid
       \<lparr>p_shape = BRepBuilderAPI_Transform (GetShape tool lab) (foldl (\<lambda>loc l. loc * l) 1 (locs st)),
        p_name = GetLabelName tool lab,
        p_color = fst (shape_color lab (GetShape tool lab) (color_tool (doc st)))\<rparr> (part_dict st)"
  "doc (store_part tool lab uid par st) =
     (doc st)\<lparr>color_tool := snd (shape_color lab (GetShape tool lab) (color_tool (doc st)))\<rparr>"
  by (simp_all add: store_part_def Let_def split: prod.splits)

lemma simple_shape_frame:
  "share_dict (simple_shape tool lab uid par st) = share_dict st"
  "parent_uid_stack (simple_shape tool lab uid par st) = parent_uid_stack st"
  "locs (simple_shape tool lab uid par st) = locs st"
  "lvl (simple_shape tool lab uid par st) = lvl st"
  "uid_log (simple_shape tool lab uid par st) = uid_log st"
  "label_dict (simple_shape tool lab uid par st) = label_dict (store_part tool lab uid par st)"
  "part_dict (simple_shape tool lab uid par st) = part_dict (store_part tool lab uid par st)"
  by (simp_all add: simple_shape_def sub_shapes_frame store_part_frame)

text \<open>The visit of a label that is a simple shape and not an assembly.\<close>

lemma get_sub_shapes_simple:
  assumes "get_sub_shapes (Suc n) tool lab st = Inr st'"
    and "\<not> IsAssembly tool lab" and "IsSimpleShape tool lab"
  shows "st' = simple_shape tool lab (fst (get_uid_from_entry (Entry tool lab) st))
                 (last (parent_uid_stack st)) (snd (get_uid_from_entry (Entry tool lab) st))"
  using assms by (simp add: get_uid_from_entry_def Let_def split: if_splits)

lemma get_uid_from_entry_frame:
  "doc (snd (get_uid_from_entry e st)) = doc st"
  "part_dict (snd (get_uid_from_entry e st)) = part_dict st"
  "label_dict (snd (get_uid_from_entry e st)) = label_dict st"
  "parent_uid_stack (snd (get_uid_from_entry e st)) = parent_uid_stack st"
  "locs (snd (get_uid_from_entry e st)) = locs st"
  "lvl (snd (get_uid_from_entry e st)) = lvl st"
  by (simp_all add: get_uid_from_entry_def Let_def)

lemma part_color_of_visit:
  assumes "get_sub_shapes (Suc n) tool lab st = Inr st'"
    and "\<not> IsAssembly tool lab" and "IsSimpleShape tool lab"
  shows "\<exists>p. map_of (part_dict st') (fst (get_uid_from_entry (Entry tool lab) st)) = Some p
           \<and> p_color p = fst (shape_color lab (GetShape tool lab) (color_tool (doc st)))
           \<and> p_shape p = BRepBuilderAPI_Transform (GetShape tool lab) (foldl (\<lambda>loc l. loc * l) 1 (locs st))"
  unfolding get_sub_shapes_simple [OF assms]
  by (simp add: simple_shape_frame store_part_frame get_uid_from_entry_frame update_conv')

lemma get_sub_shapes_simple_returns:
  assumes "\<not> IsAssembly tool lab" and "IsSimpleShape tool lab" and "parent_uid_stack st \<noteq> []"
  shows "get_sub_shapes (Suc n) tool lab st =
           Inr (simple_shape tool lab (fst (get_uid_from_entry (Entry tool lab) st))
                  (last (parent_uid_stack st)) (snd (get_uid_from_entry (Entry tool lab) st)))"
  using assms by (simp add: get_uid_from_entry_def Let_def)

lemmas example_defs = one_part_def no_labels_def no_colors_def label_blue_def
  instance_green_label_blue_def label_blue_face_red_def init_def

lemma first_uid: "share_dict st e = None \<Longrightarrow> fst (get_uid_from_entry e st) = e @ ''.0''"
  by (simp add: get_uid_from_entry_def Let_def str_int_def str_nat.simps digit_char_def)

text \<open>
  C8. Visiting a simple-shape label whose shape has no instance colour and which has no
  label colour at any of the three scopes: the part record stored under the uid of the
  visit has the colour (0.5, 0.5, 0.5), the resolution returns the colour table as it
  found it, and when the label has no sub-shapes the document is unchanged by the visit.
\<close>

theorem uncolored_shape_default:
  assumes "get_sub_shapes (Suc n) tool lab st = Inr st'"
    and "\<not> IsAssembly tool lab" and "IsSimpleShape tool lab"
    and "first_success (GetInstanceColor (color_tool (doc st)) (GetShape tool lab)) = None"
    and "first_success (GetColor (color_tool (doc st)) lab) = None"
  shows "(\<exists>p. map_of (part_dict st') (fst (get_uid_from_entry (Entry tool lab) st)) = Some p
              \<and> p_color p = Quantity_Color 0.5 0.5 0.5)
       \<and> snd (shape_color lab (GetShape tool lab) (color_tool (doc st))) = color_tool (doc st)
       \<and> (GetSubShapes tool lab = [] \<longrightarrow> doc st' = doc st)"
proof -
  have sc: "shape_color lab (GetShape tool lab) (color_tool (doc st)) = (default_color, color_tool (doc st))"
    using assms(4,5) by (simp add: shape_color_def)
  have "GetSubShapes tool lab = [] \<Longrightarrow> doc st' = doc st"
    unfolding get_sub_shapes_simple [OF assms(1-3)]
    by (simp add: simple_shape_def store_part_frame get_uid_from_entry_frame sc)
  with part_color_of_visit [OF assms(1-3)] sc show ?thesis
    by (auto simp: default_color_def)
qed

theorem uncolored_shape_default_witness:
  "\<exists>st'. get_sub_shapes 1 (shape_tool (one_part no_colors [])) 1 (init (one_part no_colors [])) = Inr st'
     \<and> (\<exists>p. map_of (part_dict st') ''0:1:1:1.0'' = Some p \<and> p_color p = Quantity_Color 0.5 0.5 0.5)
     \<and> doc st' = one_part no_colors []"
proof -
  let ?d = "one_part no_colors []"
  let ?tool = "shape_tool ?d"
  have a: "\<not> IsAssembly ?tool 1" and s: "IsSimpleShape ?tool 1"
    and subs: "GetSubShapes ?tool 1 = []" and e: "Entry ?tool 1 = ''0:1:1:1''"
    by (simp_all add: example_defs)
  have stack: "parent_uid_stack (init ?d) \<noteq> []" by (simp add: init_def)
  obtain st' where run: "get_sub_shapes (Suc 0) ?tool 1 (init ?d) = Inr st'"
    using get_sub_shapes_simple_returns [OF a s stack] by blast
  have i: "first_success (GetInstanceColor (color_tool (doc (init ?d))) (GetShape ?tool 1)) = None"
    and l: "first_success (GetColor (color_tool (doc (init ?d))) 1) = None"
    by (simp_all add: example_defs first_success_def)
  have uid: "fst (get_uid_from_entry (Entry ?tool 1) (init ?d)) = ''0:1:1:1.0''"
    unfolding e by (simp add: first_uid init_def)
  have d: "doc (init ?d) = ?d" by (simp add: init_def)
  from uncolored_shape_default [OF run a s i l] subs
  have "(\<exists>p. map_of (part_dict st') ''0:1:1:1.0'' = Some p \<and> p_color p = Quantity_Color 0.5 0.5 0.5)
        \<and> doc st' = ?d"
    unfolding uid d by simp
  with run show ?thesis by simp
qed

text \<open>
  C3. In the document \<open>one_part label_blue_face_red [2]\<close> the shape 11 of the free
  simple-shape label has no instance colour at scope 0, 1 or 2, and the label has the
  label colour blue. The walk stores a part record with the colour blue, but when it ends
  the instance colour of shape 11 is red at all three scopes: the write-back of blue
  (lines 316 to 318) has been overwritten by the loop over the sub-shapes (lines 375 to
  377), so the instance query on the same shape does not return the colour of the part
  record.
\<close>

theorem label_color_overwritten_after_back_write:
  "GetInstanceColor (color_tool (one_part label_blue_face_red [2])) 11 0 = None
   \<and> GetInstanceColor (color_tool (one_part label_blue_face_red [2])) 11 1 = None
   \<and> GetInstanceColor (color_tool (one_part label_blue_face_red [2])) 11 2 = None
   \<and> GetColor (color_tool (one_part label_blue_face_red [2])) 1 2 = Some blue
   \<and> \<not> isl (parse_doc 1 (init (one_part label_blue_face_red [2])))
   \<and> map_option p_color
        (map_of (part_dict (projr (parse_doc 1 (init (one_part label_blue_face_red [2])))))
           ''0:1:1:1.0'') = Some blue
   \<and> GetInstanceColor
        (color_tool (doc (projr (parse_doc 1 (init (one_part label_blue_face_red [2])))))) 11 0
      = Some red
   \<and> GetInstanceColor
        (color_tool (doc (projr (parse_doc 1 (init (one_part label_blue_face_red [2])))))) 11 1
      = Some red
   \<and> GetInstanceColor
        (color_tool (doc (projr (parse_doc 1 (init (one_part label_blue_face_red [2])))))) 11 2
      = Some red
   \<and> red \<noteq> blue"
  by code_simp

text \<open>
  C7. The document \<open>one_part label_blue_face_red [2]\<close> has a simple shape (shape 11)
  with one sub-shape (label 2, shape 12) whose only colour is the label colour red at
  scope 0. After the walk the sub-shape has no instance colour at any scope, and red is
  the instance colour of the enclosing shape 11 at all three.
\<close>

theorem sub_shape_label_color_lands_on_parent:
  "\<not> isl (parse_doc 1 (init (one_part label_blue_face_red [2])))
   \<and> map (GetInstanceColor (color_tool (doc (projr (parse_doc 1 (init (one_part label_blue_face_red [2])))))) 12)
        [0, 1, 2] = [None, None, None]
   \<and> map (GetInstanceColor (color_tool (doc (projr (parse_doc 1 (init (one_part label_blue_face_red [2])))))) 11)
        [0, 1, 2] = [Some red, Some red, Some red]"
  by code_simp

subsection \<open>Uids and the label dictionary\<close>

lemma log_ok_get_uid:
  assumes "log_ok st"
  shows "log_ok (snd (get_uid_from_entry e st))"
proof -
  let ?u = "uid_of e (serial st e + 1)"
  let ?st' = "snd (get_uid_from_entry e st)"
  have log: "uid_log ?st' = uid_log st @ [?u]" by (simp add: get_uid_from_entry_eq)
  have fresh: "?u \<notin> set (uid_log st)"
  proof
    assume "?u \<in> set (uid_log st)"
    with assms obtain e' v where ev: "?u = uid_of e' v" "v \<le> serial st e'"
      by (auto simp: log_ok_def)
    from uid_of_inj [OF ev(1)] ev(2) show False by auto
  qed
  have bound: "\<exists>e' v. u = uid_of e' v \<and> v \<le> serial ?st' e'" if "u \<in> set (uid_log ?st')" for u
  proof (cases "u = ?u")
    case True
    then show ?thesis
      by (intro exI [of _ e] exI [of _ "serial st e + 1"]) (simp add: serial_after)
  next
    case False
    with that log have "u \<in> set (uid_log st)" by simp
    with assms obtain e' v where ev: "u = uid_of e' v" "v \<le> serial st e'"
      by (auto simp: log_ok_def)
    then have "v \<le> serial ?st' e'" by (auto simp: serial_after)
    with ev(1) show ?thesis by blast
  qed
  from assms fresh log bound show ?thesis by (simp add: log_ok_def)
qed

lemma assembly_frame:
  "share_dict (assembly tool lab uid par st) = share_dict st"
  "uid_log (assembly tool lab uid par st) = uid_log st"
  "locs (assembly tool lab uid par st) = locs st"
  "lvl (assembly tool lab uid par st) = lvl st"
  "part_dict (assembly tool lab uid par st) = part_dict st"
  "doc (assembly tool lab uid par st) = doc st"
  "label_dict (assembly tool lab uid par st) =
     AList.update uid \<lparr>l_entry = Entry tool lab, l_name = GetLabelName tool lab,
        l_parent_uid = par, l_ref_entry = None, l_is_assy = True\<rparr> (label_dict st)"
  "parent_uid_stack (assembly tool lab uid par st) = parent_uid_stack st @ [Some uid]"
  by (simp_all add: assembly_def Let_def)

lemma enter_component_frame:
  "share_dict (enter_component tool l st) = share_dict (snd (get_uid_from_entry (Entry tool l) st))"
  "uid_log (enter_component tool l st) = uid_log (snd (get_uid_from_entry (Entry tool l) st))"
  "label_dict (enter_component tool l st) = label_dict st"
  "part_dict (enter_component tool l st) = part_dict st"
  "doc (enter_component tool l st) = doc st"
  "parent_uid_stack (enter_component tool l st) = parent_uid_stack st"
  "locs (enter_component tool l st) = locs st @ [GetLocation tool l]"
  "lvl (enter_component tool l st) = lvl st + 1"
  by (simp_all add: enter_component_def get_uid_from_entry_def Let_def)

lemma leave_component_frame:
  assumes "leave_component st = Inr st'"
  shows "share_dict st' = share_dict st" "uid_log st' = uid_log st" "label_dict st' = label_dict st"
    "part_dict st' = part_dict st" "doc st' = doc st" "locs st' = butlast (locs st)"
    "lvl st' = lvl st - 1" "locs st \<noteq> []"
  using assms by (auto simp: leave_component_def Let_def split: if_splits sum.splits)

text \<open>
  C1. Two walks of the same one-part document by one model: the second walk returns the
  single uid \<open>0:1:1:1.1\<close>, and after it both dictionaries still hold the record
  that the first walk stored under \<open>0:1:1:1.0\<close>.
\<close>

theorem tables_not_rebuilt:
  "\<not> isl (parse_doc 1 (init (one_part no_colors [])))
   \<and> \<not> isl (parse_doc 1 (projr (parse_doc 1 (init (one_part no_colors [])))))
   \<and> uid_log (projr (parse_doc 1 (projr (parse_doc 1 (init (one_part no_colors []))))))
        = [''0:1:1:1.1'']
   \<and> map fst (label_dict (projr (parse_doc 1 (projr (parse_doc 1 (init (one_part no_colors [])))))))
        = [''0:1:1:1.0'', ''0:1:1:1.1'']
   \<and> map fst (part_dict (projr (parse_doc 1 (projr (parse_doc 1 (init (one_part no_colors [])))))))
        = [''0:1:1:1.0'', ''0:1:1:1.1'']"
  by code_simp

text \<open>
  C6. The document \<open>two_roots\<close> has two free labels, an assembly and then a simple
  shape. In the walk of a new model the label record of the second free label has the
  uid of the first as its parent uid.
\<close>

theorem second_root_gets_first_root_as_parent:
  "\<not> isl (parse_doc 1 (init two_roots))
   \<and> map_option l_parent_uid (map_of (label_dict (projr (parse_doc 1 (init two_roots)))) ''0:1:1:2.0'')
        = Some (Some ''0:1:1:1.0'')"
  by code_simp

subsection \<open>Composed locations\<close>

lemma descend_snoc:
  "descend tool root_item rs = Some a \<Longrightarrow> IsAssembly tool a \<Longrightarrow> r \<in> set (GetComponents tool a)
     \<Longrightarrow> IsReference tool r \<Longrightarrow> descend tool root_item (rs @ [r]) = Some (GetReferredShape tool r)"
  by (induction rs arbitrary: root_item) (auto split: if_splits)

lemma placed_cong: "placed tool st0 st \<Longrightarrow> part_dict st' = part_dict st \<Longrightarrow> placed tool st0 st'"
  by (simp add: placed_def)

lemma placed_walk:
  "get_sub_shapes n tool lab st = Inr st' \<Longrightarrow> root_item \<in> set (GetFreeShapes tool)
     \<Longrightarrow> descend tool root_item rs = Some lab \<Longrightarrow> locs st = map (GetLocation tool) rs
     \<Longrightarrow> placed tool st0 st \<Longrightarrow> placed tool st0 st' \<and> locs st' = locs st"
  "components_loop n tool ls st = Inr st' \<Longrightarrow> root_item \<in> set (GetFreeShapes tool)
     \<Longrightarrow> descend tool root_item rs = Some a \<Longrightarrow> IsAssembly tool a
     \<Longrightarrow> set ls \<subseteq> set (GetComponents tool a) \<Longrightarrow> locs st = map (GetLocation tool) rs
     \<Longrightarrow> placed tool st0 st \<Longrightarrow> placed tool st0 st' \<and> locs st' = locs st"
proof (induction n tool lab st and n tool ls st arbitrary: st' rs and st' rs a
    rule: get_sub_shapes_components_loop.induct)
  case (1 tool lab st)
  then show ?case by simp
next
  case (2 n tool lab st)
  let ?uid = "fst (get_uid_from_entry (Entry tool lab) st)"
  let ?st1 = "snd (get_uid_from_entry (Entry tool lab) st)"
  let ?par = "last (parent_uid_stack ?st1)"
  note run = "2.prems"(1) and root_item = "2.prems"(2) and path = "2.prems"(3)
    and ls = "2.prems"(4) and pl = "2.prems"(5)
  from run have stack: "parent_uid_stack ?st1 \<noteq> []"
    by (auto simp: split_beta split: if_splits)
  show ?case
  proof (cases "IsAssembly tool lab")
    case True
    let ?st2 = "assembly tool lab ?uid ?par ?st1"
    from True run stack
    have loop: "components_loop n tool (GetComponents tool lab) ?st2 = Inr st'"
      by (simp add: split_beta)
    have l2: "locs ?st2 = map (GetLocation tool) rs"
      by (simp add: assembly_frame get_uid_from_entry_frame ls)
    have p2: "placed tool st0 ?st2"
      by (rule placed_cong [OF pl]) (simp add: assembly_frame get_uid_from_entry_frame)
    from "2.IH" [OF prod.collapse stack refl True loop root_item path True subset_refl l2 p2]
    show ?thesis by (simp add: assembly_frame get_uid_from_entry_frame)
  next
    case False
    show ?thesis
    proof (cases "IsSimpleShape tool lab")
      case True
      with False run stack have st': "st' = simple_shape tool lab ?uid ?par ?st1"
        by (simp add: split_beta)
      let ?p = "\<lparr>p_shape = BRepBuilderAPI_Transform (GetShape tool lab)
                    (foldl (\<lambda>loc l. loc * l) 1 (map (GetLocation tool) rs)),
                  p_name = GetLabelName tool lab,
                  p_color = fst (shape_color lab (GetShape tool lab) (color_tool (doc st)))\<rparr>"
      have pd: "part_dict st' = AList.update ?uid ?p (part_dict st)"
        by (simp add: st' simple_shape_frame store_part_frame get_uid_from_entry_frame ls)
      have "leaf_at tool root_item rs lab"
        using path True False by (simp add: leaf_at_def)
      with root_item have "on_path tool ?p"
        unfolding on_path_def by (intro bexI [of _ root_item] exI [of _ rs] exI [of _ lab]) simp_all
      with pl have "placed tool st0 st'"
        by (auto simp: placed_def pd update_conv' split: if_splits)
      then show ?thesis
        by (simp add: st' simple_shape_frame get_uid_from_entry_frame)
    next
      case notsimple: False
      with False run stack have "st' = ?st1" by (simp add: split_beta)
      with placed_cong [OF pl, of ?st1] show ?thesis
        by (simp add: get_uid_from_entry_frame)
    qed
  qed
next
  case (3 n tool st)
  then show ?case by simp
next
  case (4 n tool label rest st)
  note run = "4.prems"(1) and root_item = "4.prems"(2) and path = "4.prems"(3)
    and asm = "4.prems"(4) and sub = "4.prems"(5) and ls = "4.prems"(6) and pl = "4.prems"(7)
  from sub have sub': "set rest \<subseteq> set (GetComponents tool a)" by simp
  show ?case
  proof (cases "IsReference tool label")
    case True
    let ?st0 = "enter_component tool label st"
    from True run obtain st1 st2
      where s1: "get_sub_shapes n tool (GetReferredShape tool label) ?st0 = Inr st1"
        and s2: "leave_component st1 = Inr st2"
        and s3: "components_loop n tool rest st2 = Inr st'"
      by (auto split: sum.splits)
    from sub have "label \<in> set (GetComponents tool a)" by simp
    from descend_snoc [OF path asm this True]
    have path': "descend tool root_item (rs @ [label]) = Some (GetReferredShape tool label)" .
    have l0: "locs ?st0 = map (GetLocation tool) (rs @ [label])"
      by (simp add: enter_component_frame ls)
    have p0: "placed tool st0 ?st0"
      by (rule placed_cong [OF pl]) (simp add: enter_component_frame)
    from "4.IH"(1) [OF True s1 root_item path' l0 p0]
    have p1: "placed tool st0 st1" and l1: "locs st1 = locs st @ [GetLocation tool label]"
      by (simp_all add: enter_component_frame)
    have p2: "placed tool st0 st2"
      by (rule placed_cong [OF p1]) (simp add: leave_component_frame [OF s2])
    have l2: "locs st2 = map (GetLocation tool) rs"
      by (simp add: leave_component_frame(6) [OF s2] l1 ls)
    from "4.IH"(2) [OF True s1 s2 s3 root_item path asm sub' l2 p2]
    show ?thesis by (simp add: l2 ls)
  next
    case False
    with run have "components_loop n tool rest st = Inr st'" by simp
    from "4.IH"(3) [OF False this root_item path asm sub' ls pl] show ?thesis .
  qed
qed

lemma placed_roots:
  "get_shapes n tool roots st = Inr st' \<Longrightarrow> set roots \<subseteq> set (GetFreeShapes tool)
     \<Longrightarrow> locs st = [] \<Longrightarrow> placed tool st0 st \<Longrightarrow> placed tool st0 st'"
proof (induction roots arbitrary: st)
  case Nil
  then show ?case by simp
next
  case (Cons r roots)
  from Cons.prems(1) obtain st1
    where s1: "get_sub_shapes n tool r st = Inr st1" and s2: "get_shapes n tool roots st1 = Inr st'"
    by (auto split: sum.splits)
  from Cons.prems(2) have r: "r \<in> set (GetFreeShapes tool)" by simp
  have "descend tool r [] = Some r" by simp
  from placed_walk(1) [OF s1 r this _ Cons.prems(4)] Cons.prems(3)
  have "placed tool st0 st1" "locs st1 = []" by simp_all
  with Cons.IH [OF s2] Cons.prems(2) show ?case by simp
qed

lemma extendsD:
  assumes "extends st st'"
  shows "log_ok st'" and "set (uid_log st) \<subseteq> set (uid_log st')"
    and "u \<in> set (uid_log st) \<Longrightarrow> map_of (part_dict st') u = map_of (part_dict st) u"
  using assms by (simp_all add: extends_def)

lemma extendsI:
  assumes "log_ok st'" and "set (uid_log st) \<subseteq> set (uid_log st')"
    and "\<And>u. u \<in> set (uid_log st) \<Longrightarrow> map_of (part_dict st') u = map_of (part_dict st) u"
  shows "extends st st'"
  using assms by (simp add: extends_def)

lemma extends_refl: "log_ok st \<Longrightarrow> extends st st"
  by (rule extendsI) simp_all

lemma extends_trans:
  assumes a: "extends st st1" and b: "extends st1 st2"
  shows "extends st st2"
proof (rule extendsI)
  show "log_ok st2" by (rule extendsD(1) [OF b])
  show "set (uid_log st) \<subseteq> set (uid_log st2)"
    using extendsD(2) [OF a] extendsD(2) [OF b] by (rule subset_trans)
  fix u assume u: "u \<in> set (uid_log st)"
  with extendsD(2) [OF a] have "u \<in> set (uid_log st1)" by blast
  from extendsD(3) [OF b this] extendsD(3) [OF a u]
  show "map_of (part_dict st2) u = map_of (part_dict st) u" by simp
qed

lemma log_ok_cong:
  "log_ok st \<Longrightarrow> share_dict st' = share_dict st \<Longrightarrow> uid_log st' = uid_log st \<Longrightarrow> log_ok st'"
  by (simp add: log_ok_def serial_def)

lemma extends_cong_right:
  assumes "extends st st1" and "share_dict st' = share_dict st1" and "uid_log st' = uid_log st1"
    and "part_dict st' = part_dict st1"
  shows "extends st st'"
proof (rule extendsI)
  show "log_ok st'" by (rule log_ok_cong [OF extendsD(1) [OF assms(1)] assms(2,3)])
  show "set (uid_log st) \<subseteq> set (uid_log st')"
    using extendsD(2) [OF assms(1)] by (simp add: assms(3))
  fix u assume "u \<in> set (uid_log st)"
  from extendsD(3) [OF assms(1) this]
  show "map_of (part_dict st') u = map_of (part_dict st) u" by (simp add: assms(4))
qed

lemma get_uid_log:
  "uid_log (snd (get_uid_from_entry e st)) = uid_log st @ [fst (get_uid_from_entry e st)]"
  by (simp add: get_uid_from_entry_def Let_def)

lemma get_uid_fresh:
  assumes "log_ok st"
  shows "fst (get_uid_from_entry e st) \<notin> set (uid_log st)"
proof -
  from log_ok_get_uid [OF assms, of e] have "distinct (uid_log (snd (get_uid_from_entry e st)))"
    by (simp add: log_ok_def)
  then show ?thesis by (simp add: get_uid_log)
qed

lemma get_uid_logged:
  "fst (get_uid_from_entry e st) \<in> set (uid_log (snd (get_uid_from_entry e st)))"
  by (simp add: get_uid_log)

lemma extends_get_uid:
  assumes "log_ok st"
  shows "extends st (snd (get_uid_from_entry e st))"
proof (rule extendsI)
  show "log_ok (snd (get_uid_from_entry e st))" by (rule log_ok_get_uid [OF assms])
  show "set (uid_log st) \<subseteq> set (uid_log (snd (get_uid_from_entry e st)))"
    by (simp add: get_uid_log subset_insertI)
  fix u
  show "map_of (part_dict (snd (get_uid_from_entry e st))) u = map_of (part_dict st) u"
    by (simp add: get_uid_from_entry_frame)
qed

lemma covered_mono:
  assumes c: "covered tool st1 st2 lab ls" and s: "set (uid_log st0) \<subseteq> set (uid_log st1)"
    and e: "extends st2 st3"
  shows "covered tool st0 st3 lab ls"
proof -
  from c obtain u p where u: "u \<in> set (uid_log st2)" "u \<notin> set (uid_log st1)"
    and p: "map_of (part_dict st2) u = Some p"
      "p_shape p = BRepBuilderAPI_Transform (GetShape tool lab) (foldl (\<lambda>loc l. loc * l) 1 ls)"
    unfolding covered_def by blast
  from u(1) extendsD(2) [OF e] have u3: "u \<in> set (uid_log st3)" by blast
  from u(2) s have u0: "u \<notin> set (uid_log st0)" by blast
  from extendsD(3) [OF e u(1)] p(1) have "map_of (part_dict st3) u = Some p" by simp
  with u3 u0 p(2) show ?thesis unfolding covered_def by blast
qed

lemma leaf_at_Nil: "leaf_at tool a [] lab \<longleftrightarrow> lab = a \<and> IsSimpleShape tool a \<and> \<not> IsAssembly tool a"
  by (auto simp: leaf_at_def)

lemma leaf_at_Cons:
  "leaf_at tool a (r # rs) lab \<longleftrightarrow>
     IsAssembly tool a \<and> r \<in> set (GetComponents tool a) \<and> IsReference tool r
     \<and> leaf_at tool (GetReferredShape tool r) rs lab"
proof -
  define c where "c \<longleftrightarrow> IsAssembly tool a \<and> r \<in> set (GetComponents tool a) \<and> IsReference tool r"
  have d: "descend tool a (r # rs) = (if c then descend tool (GetReferredShape tool r) rs else None)"
    by (simp add: c_def)
  have "leaf_at tool a (r # rs) lab \<longleftrightarrow> c \<and> leaf_at tool (GetReferredShape tool r) rs lab"
    unfolding leaf_at_def d by (cases c) simp_all
  then show ?thesis by (simp add: c_def)
qed

lemma walkedI:
  assumes "extends st st'" and "locs st' = locs st"
    and "\<And>rs lab. leaf_at tool a rs lab \<Longrightarrow>
           covered tool st st' lab (locs st @ map (GetLocation tool) rs)"
  shows "walked tool a st st'"
  using assms by (simp add: walked_def)

lemma walkedD:
  assumes "walked tool a st st'"
  shows "extends st st'" and "locs st' = locs st"
    and "leaf_at tool a rs lab \<Longrightarrow> covered tool st st' lab (locs st @ map (GetLocation tool) rs)"
  using assms by (simp_all add: walked_def)

lemma loopedI:
  assumes "extends st st'" and "locs st' = locs st"
    and "\<And>r rs lab. r \<in> set ls \<Longrightarrow> IsReference tool r \<Longrightarrow>
           leaf_at tool (GetReferredShape tool r) rs lab \<Longrightarrow>
           covered tool st st' lab (locs st @ GetLocation tool r # map (GetLocation tool) rs)"
  shows "looped tool ls st st'"
  using assms by (simp add: looped_def)

lemma loopedD:
  assumes "looped tool ls st st'"
  shows "extends st st'" and "locs st' = locs st"
    and "r \<in> set ls \<Longrightarrow> IsReference tool r \<Longrightarrow> leaf_at tool (GetReferredShape tool r) rs lab
           \<Longrightarrow> covered tool st st' lab (locs st @ GetLocation tool r # map (GetLocation tool) rs)"
  using assms by (simp_all add: looped_def)

lemma covered_weaken:
  "covered tool st1 st2 lab ls \<Longrightarrow> set (uid_log st0) \<subseteq> set (uid_log st1)
     \<Longrightarrow> covered tool st0 st2 lab ls"
  unfolding covered_def by blast

lemma covered_extend:
  assumes c: "covered tool st0 st2 lab ls" and e: "extends st2 st3"
  shows "covered tool st0 st3 lab ls"
proof -
  from extendsD(1) [OF e] have "extends st3 st3" by (rule extends_refl)
  then have "set (uid_log st0) \<subseteq> set (uid_log st0)" by simp
  from covered_mono [OF c this e] show ?thesis .
qed

lemma covered_cong:
  "covered tool st0 st2 lab ls \<Longrightarrow> ls' = ls \<Longrightarrow> covered tool st0 st2 lab ls'"
  by simp

lemma covered_walk:
  "get_sub_shapes n tool a st = Inr st' \<Longrightarrow> log_ok st \<Longrightarrow> walked tool a st st'"
  "components_loop n tool ls st = Inr st' \<Longrightarrow> log_ok st \<Longrightarrow> looped tool ls st st'"
proof (induction n tool a st and n tool ls st arbitrary: st' and st'
    rule: get_sub_shapes_components_loop.induct)
  case (1 tool lab st)
  then show ?case by simp
next
  case (2 n tool a st)
  let ?uid = "fst (get_uid_from_entry (Entry tool a) st)"
  let ?st1 = "snd (get_uid_from_entry (Entry tool a) st)"
  let ?par = "last (parent_uid_stack ?st1)"
  note run = "2.prems"(1) and ok = "2.prems"(2)
  from run have stack: "parent_uid_stack ?st1 \<noteq> []"
    by (auto simp: split_beta split: if_splits)
  note ok1 = log_ok_get_uid [OF ok, of "Entry tool a"]
  note ext1 = extends_get_uid [OF ok, of "Entry tool a"]
  show ?case
  proof (cases "IsAssembly tool a")
    case True
    let ?st2 = "assembly tool a ?uid ?par ?st1"
    from True run stack
    have loop: "components_loop n tool (GetComponents tool a) ?st2 = Inr st'"
      by (simp add: split_beta)
    have ok2: "log_ok ?st2"
      by (rule log_ok_cong [OF ok1]) (simp_all add: assembly_frame)
    have ext2: "extends st ?st2"
      by (rule extends_cong_right [OF ext1]) (simp_all add: assembly_frame)
    have l2: "locs ?st2 = locs st"
      by (simp add: assembly_frame get_uid_from_entry_frame)
    note ih = "2.IH" [OF prod.collapse stack refl True loop ok2]
    show ?thesis
    proof (rule walkedI)
      show "extends st st'" by (rule extends_trans [OF ext2 loopedD(1) [OF ih]])
      show "locs st' = locs st" using loopedD(2) [OF ih] l2 by simp
      fix rs lab assume leaf: "leaf_at tool a rs lab"
      show "covered tool st st' lab (locs st @ map (GetLocation tool) rs)"
      proof (cases rs)
        case Nil
        with leaf True show ?thesis by (simp add: leaf_at_Nil)
      next
        case (Cons r rs')
        with leaf have "r \<in> set (GetComponents tool a)" "IsReference tool r"
          "leaf_at tool (GetReferredShape tool r) rs' lab"
          by (simp_all add: leaf_at_Cons)
        from loopedD(3) [OF ih this]
        have "covered tool ?st2 st' lab (locs st @ GetLocation tool r # map (GetLocation tool) rs')"
          by (simp add: l2)
        from covered_weaken [OF this extendsD(2) [OF ext2]] Cons show ?thesis by simp
      qed
    qed
  next
    case False
    show ?thesis
    proof (cases "IsSimpleShape tool a")
      case True
      with False run stack have st': "st' = simple_shape tool a ?uid ?par ?st1"
        by (simp add: split_beta)
      let ?p = "\<lparr>p_shape = BRepBuilderAPI_Transform (GetShape tool a)
                    (foldl (\<lambda>loc l. loc * l) 1 (locs st)),
                  p_name = GetLabelName tool a,
                  p_color = fst (shape_color a (GetShape tool a) (color_tool (doc st)))\<rparr>"
      have pd: "part_dict st' = AList.update ?uid ?p (part_dict st)"
        by (simp add: st' simple_shape_frame store_part_frame get_uid_from_entry_frame)
      have lg: "uid_log st' = uid_log ?st1" "share_dict st' = share_dict ?st1"
        by (simp_all add: st' simple_shape_frame)
      note fresh = get_uid_fresh [OF ok, of "Entry tool a"]
      have ext: "extends st st'"
      proof (rule extendsI)
        show "log_ok st'" by (rule log_ok_cong [OF ok1]) (simp_all add: lg)
        show "set (uid_log st) \<subseteq> set (uid_log st')"
          using extendsD(2) [OF ext1] by (simp add: lg)
        fix u assume "u \<in> set (uid_log st)"
        with fresh have "u \<noteq> ?uid" by blast
        then show "map_of (part_dict st') u = map_of (part_dict st) u"
          by (simp add: pd update_conv')
      qed
      show ?thesis
      proof (rule walkedI [OF ext])
        show "locs st' = locs st"
          by (simp add: st' simple_shape_frame get_uid_from_entry_frame)
        fix rs lab assume leaf: "leaf_at tool a rs lab"
        show "covered tool st st' lab (locs st @ map (GetLocation tool) rs)"
        proof (cases rs)
          case Nil
          with leaf have lab: "lab = a" by (simp add: leaf_at_Nil)
          have "?uid \<in> set (uid_log st')" by (simp add: lg get_uid_logged)
          moreover have "map_of (part_dict st') ?uid = Some ?p" by (simp add: pd update_conv')
          moreover have "p_shape ?p = BRepBuilderAPI_Transform (GetShape tool lab)
              (foldl (\<lambda>loc l. loc * l) 1 (locs st @ map (GetLocation tool) rs))"
            by (simp add: lab Nil)
          ultimately show ?thesis unfolding covered_def using fresh by blast
        next
          case (Cons r rs')
          with leaf False show ?thesis by (simp add: leaf_at_Cons)
        qed
      qed
    next
      case notsimple: False
      with False run stack have st': "st' = ?st1" by (simp add: split_beta)
      show ?thesis
      proof (rule walkedI)
        show "extends st st'" unfolding st' by (rule ext1)
        show "locs st' = locs st" by (simp add: st' get_uid_from_entry_frame)
        fix rs lab assume leaf: "leaf_at tool a rs lab"
        with False notsimple show "covered tool st st' lab (locs st @ map (GetLocation tool) rs)"
          by (cases rs) (simp_all add: leaf_at_Nil leaf_at_Cons)
      qed
    qed
  qed
next
  case (3 n tool st)
  show ?case
  proof (rule loopedI)
    from 3 show "extends st st'" by (simp add: extends_refl)
    from 3 show "locs st' = locs st" by simp
  qed simp
next
  case (4 n tool label rest st)
  note run = "4.prems"(1) and ok = "4.prems"(2)
  show ?case
  proof (cases "IsReference tool label")
    case True
    let ?st0 = "enter_component tool label st"
    from True run obtain st1 st2
      where s1: "get_sub_shapes n tool (GetReferredShape tool label) ?st0 = Inr st1"
        and s2: "leave_component st1 = Inr st2"
        and s3: "components_loop n tool rest st2 = Inr st'"
      by (auto split: sum.splits)
    have ok0: "log_ok ?st0"
      by (rule log_ok_cong [OF log_ok_get_uid [OF ok, of "Entry tool label"]])
         (simp_all add: enter_component_frame)
    have ext0: "extends st ?st0"
      by (rule extends_cong_right [OF extends_get_uid [OF ok, of "Entry tool label"]])
         (simp_all add: enter_component_frame get_uid_from_entry_frame)
    have l0: "locs ?st0 = locs st @ [GetLocation tool label]"
      by (simp add: enter_component_frame)
    note ih1 = "4.IH"(1) [OF True s1 ok0]
    have l1: "locs st1 = locs st @ [GetLocation tool label]"
      using walkedD(2) [OF ih1] l0 by simp
    have e12: "extends st1 st2"
      by (rule extends_cong_right [OF extends_refl [OF extendsD(1) [OF walkedD(1) [OF ih1]]]])
         (simp_all add: leave_component_frame [OF s2])
    have ok2: "log_ok st2" by (rule extendsD(1) [OF e12])
    have l2: "locs st2 = locs st"
      by (simp add: leave_component_frame(6) [OF s2] l1)
    note ih2 = "4.IH"(2) [OF True s1 s2 s3 ok2]
    have e02: "extends st st2"
      by (rule extends_trans [OF extends_trans [OF ext0 walkedD(1) [OF ih1]] e12])
    show ?thesis
    proof (rule loopedI)
      show "extends st st'" by (rule extends_trans [OF e02 loopedD(1) [OF ih2]])
      show "locs st' = locs st" using loopedD(2) [OF ih2] l2 by simp
      fix r rs lab
      assume r: "r \<in> set (label # rest)" and ref: "IsReference tool r"
        and leaf: "leaf_at tool (GetReferredShape tool r) rs lab"
      show "covered tool st st' lab (locs st @ GetLocation tool r # map (GetLocation tool) rs)"
      proof (cases "r \<in> set rest")
        case True
        from loopedD(3) [OF ih2 True ref leaf]
        have "covered tool st2 st' lab (locs st @ GetLocation tool r # map (GetLocation tool) rs)"
          by (simp add: l2)
        from covered_weaken [OF this extendsD(2) [OF e02]] show ?thesis .
      next
        case False
        with r have rl: "r = label" by simp
        from walkedD(3) [OF ih1 leaf [unfolded rl]]
        have "covered tool ?st0 st1 lab (locs st @ GetLocation tool r # map (GetLocation tool) rs)"
          by (simp add: l0 rl)
        from covered_weaken [OF this extendsD(2) [OF ext0]]
        have "covered tool st st1 lab (locs st @ GetLocation tool r # map (GetLocation tool) rs)" .
        from covered_extend [OF this extends_trans [OF e12 loopedD(1) [OF ih2]]] show ?thesis .
      qed
    qed
  next
    case False
    with run have lp: "components_loop n tool rest st = Inr st'" by simp
    note ih = "4.IH"(3) [OF False lp ok]
    show ?thesis
    proof (rule loopedI)
      show "extends st st'" by (rule loopedD(1) [OF ih])
      show "locs st' = locs st" by (rule loopedD(2) [OF ih])
      fix r rs lab
      assume r: "r \<in> set (label # rest)" and ref: "IsReference tool r"
        and leaf: "leaf_at tool (GetReferredShape tool r) rs lab"
      from r ref False have "r \<in> set rest" by auto
      from loopedD(3) [OF ih this ref leaf]
      show "covered tool st st' lab (locs st @ GetLocation tool r # map (GetLocation tool) rs)" .
    qed
  qed
qed

lemma scannedI:
  assumes "extends st st'" and "locs st' = []"
    and "\<And>r rs lab. r \<in> set roots \<Longrightarrow> leaf_at tool r rs lab \<Longrightarrow>
           covered tool st st' lab (map (GetLocation tool) rs)"
  shows "scanned tool roots st st'"
  using assms by (simp add: scanned_def)

lemma scannedD:
  assumes "scanned tool roots st st'"
  shows "extends st st'" and "locs st' = []"
    and "r \<in> set roots \<Longrightarrow> leaf_at tool r rs lab \<Longrightarrow>
           covered tool st st' lab (map (GetLocation tool) rs)"
  using assms by (simp_all add: scanned_def)

lemma covered_roots:
  "get_shapes n tool roots st = Inr st' \<Longrightarrow> log_ok st \<Longrightarrow> locs st = []
     \<Longrightarrow> scanned tool roots st st'"
proof (induction roots arbitrary: st)
  case Nil
  show ?case
  proof (rule scannedI)
    from Nil show "extends st st'" by (simp add: extends_refl)
    from Nil show "locs st' = []" by simp
  qed simp
next
  case (Cons a roots)
  from Cons.prems(1) obtain st1
    where s1: "get_sub_shapes n tool a st = Inr st1" and s2: "get_shapes n tool roots st1 = Inr st'"
    by (auto split: sum.splits)
  note w = covered_walk(1) [OF s1 Cons.prems(2)]
  have l1: "locs st1 = []" using walkedD(2) [OF w] Cons.prems(3) by simp
  note ih = Cons.IH [OF s2 extendsD(1) [OF walkedD(1) [OF w]] l1]
  show ?case
  proof (rule scannedI)
    show "extends st st'" by (rule extends_trans [OF walkedD(1) [OF w] scannedD(1) [OF ih]])
    show "locs st' = []" by (rule scannedD(2) [OF ih])
    fix r rs lab assume r: "r \<in> set (a # roots)" and leaf: "leaf_at tool r rs lab"
    show "covered tool st st' lab (map (GetLocation tool) rs)"
    proof (cases "r \<in> set roots")
      case True
      from covered_weaken [OF scannedD(3) [OF ih True leaf] extendsD(2) [OF walkedD(1) [OF w]]]
      show ?thesis .
    next
      case False
      with r have "r = a" by simp
      with walkedD(3) [OF w, of rs lab] leaf Cons.prems(3)
      have "covered tool st st1 lab (map (GetLocation tool) rs)" by simp
      from covered_extend [OF this scannedD(1) [OF ih]] show ?thesis .
    qed
  qed
qed

lemma parse_doc_covers:
  assumes "parse_doc n st = Inr st'" and "root_item \<in> set (GetFreeShapes (shape_tool (doc st)))"
    and "leaf_at (shape_tool (doc st)) root_item rs lab"
  shows "\<exists>uid \<in> set (uid_log st'). \<exists>p. map_of (part_dict st') uid = Some p
           \<and> p_shape p = BRepBuilderAPI_Transform (GetShape (shape_tool (doc st)) lab)
                (foldl (\<lambda>loc l. loc * l) 1 (map (GetLocation (shape_tool (doc st))) rs))"
proof -
  let ?tool = "shape_tool (doc st)"
  let ?st0 = "st\<lparr>locs := [], lvl := 0, output_shapes := [], uid_log := []\<rparr>"
  from assms(1) have run: "get_shapes n ?tool (GetFreeShapes ?tool) ?st0 = Inr st'"
    by (simp add: parse_doc_def Let_def)
  have "log_ok ?st0" by (simp add: log_ok_def)
  from covered_roots [OF run this] have "scanned ?tool (GetFreeShapes ?tool) ?st0 st'" by simp
  from scannedD(3) [OF this assms(2,3)] show ?thesis unfolding covered_def by blast
qed

lemma path_product_of_result:
  assumes "parse_doc n st = Inr st'"
  shows "(\<forall>root_item \<in> set (GetFreeShapes (shape_tool (doc st))). \<forall>rs lab.
            descend (shape_tool (doc st)) root_item rs = Some lab
            \<and> IsSimpleShape (shape_tool (doc st)) lab \<and> \<not> IsAssembly (shape_tool (doc st)) lab \<longrightarrow>
            (\<exists>uid \<in> set (uid_log st'). \<exists>p. map_of (part_dict st') uid = Some p
               \<and> p_shape p = BRepBuilderAPI_Transform (GetShape (shape_tool (doc st)) lab)
                    (foldl (\<lambda>loc l. loc * l) 1 (map (GetLocation (shape_tool (doc st))) rs))))
       \<and> (\<forall>uid p. map_of (part_dict st') uid = Some p \<longrightarrow>
            map_of (part_dict st) uid = Some p
            \<or> (\<exists>root_item \<in> set (GetFreeShapes (shape_tool (doc st))). \<exists>rs lab.
                 descend (shape_tool (doc st)) root_item rs = Some lab
                 \<and> IsSimpleShape (shape_tool (doc st)) lab \<and> \<not> IsAssembly (shape_tool (doc st)) lab
                 \<and> p_shape p = BRepBuilderAPI_Transform (GetShape (shape_tool (doc st)) lab)
                      (foldl (\<lambda>loc l. loc * l) 1 (map (GetLocation (shape_tool (doc st))) rs))))"
proof (intro conjI ballI allI impI)
  fix root_item rs lab
  assume r: "root_item \<in> set (GetFreeShapes (shape_tool (doc st)))"
    and "descend (shape_tool (doc st)) root_item rs = Some lab
         \<and> IsSimpleShape (shape_tool (doc st)) lab \<and> \<not> IsAssembly (shape_tool (doc st)) lab"
  then have "leaf_at (shape_tool (doc st)) root_item rs lab" by (simp add: leaf_at_def)
  from parse_doc_covers [OF assms r this]
  show "\<exists>uid \<in> set (uid_log st'). \<exists>p. map_of (part_dict st') uid = Some p
          \<and> p_shape p = BRepBuilderAPI_Transform (GetShape (shape_tool (doc st)) lab)
               (foldl (\<lambda>loc l. loc * l) 1 (map (GetLocation (shape_tool (doc st))) rs))" .
next
  fix uid p
  assume mp: "map_of (part_dict st') uid = Some p"
  let ?tool = "shape_tool (doc st)"
  let ?st0 = "st\<lparr>locs := [], lvl := 0, output_shapes := [], uid_log := []\<rparr>"
  from assms have run: "get_shapes n ?tool (GetFreeShapes ?tool) ?st0 = Inr st'"
    by (simp add: parse_doc_def Let_def)
  have "placed ?tool st ?st0" by (simp add: placed_def)
  from placed_roots [OF run subset_refl _ this] have "placed ?tool st st'" by simp
  with mp have "map_of (part_dict st) uid = Some p \<or> on_path ?tool p"
    by (simp add: placed_def)
  then show "map_of (part_dict st) uid = Some p
      \<or> (\<exists>root_item \<in> set (GetFreeShapes ?tool). \<exists>rs lab.
           descend ?tool root_item rs = Some lab
           \<and> IsSimpleShape ?tool lab \<and> \<not> IsAssembly ?tool lab
           \<and> p_shape p = BRepBuilderAPI_Transform (GetShape ?tool lab)
                (foldl (\<lambda>loc l. loc * l) 1 (map (GetLocation ?tool) rs)))"
    unfolding on_path_def leaf_at_def by simp
qed

subsection \<open>The walk ends normally within the depth of the document\<close>

lemma depth_within_mono: "depth_within tool k a \<Longrightarrow> depth_within tool (Suc k) a"
proof (induction k arbitrary: a)
  case 0
  then show ?case by simp
next
  case (Suc k)
  show ?case
    unfolding depth_within.simps(2) [of tool "Suc k" a]
  proof (intro impI ballI)
    fix r assume "IsAssembly tool a" "r \<in> set (GetComponents tool a)" "IsReference tool r"
    with Suc.prems have "depth_within tool k (GetReferredShape tool r)" by simp
    then show "depth_within tool (Suc k) (GetReferredShape tool r)" by (rule Suc.IH)
  qed
qed

lemma trim_returns:
  "0 \<le> l \<Longrightarrow> \<exists>s'. trim l stack = Inr s' \<and> (stack \<noteq> [] \<longrightarrow> s' \<noteq> [])"
proof (induction l stack rule: trim.induct)
  case (1 l stack)
  show ?case
  proof (cases "int (length stack) > l + 2")
    case True
    with "1.prems" have ne: "stack \<noteq> []" and ne': "butlast stack \<noteq> []"
      by (auto simp: butlast_conv_take)
    from "1.IH" [OF True ne "1.prems"] ne' obtain s'
      where "trim l (butlast stack) = Inr s'" "s' \<noteq> []" by blast
    with True ne show ?thesis by (simp add: trim.simps [of l stack])
  next
    case False
    then show ?thesis by (simp add: trim.simps [of l stack])
  qed
qed

lemma leave_component_returns:
  assumes "locs st \<noteq> []" and "1 \<le> lvl st" and "parent_uid_stack st \<noteq> []"
  shows "\<exists>st'. leave_component st = Inr st' \<and> parent_uid_stack st' \<noteq> []
           \<and> lvl st' = lvl st - 1 \<and> locs st' = butlast (locs st)"
proof -
  from assms(2) have "0 \<le> lvl st - 1" by simp
  from trim_returns [OF this, of "parent_uid_stack st"] assms(3) obtain s'
    where "trim (lvl st - 1) (parent_uid_stack st) = Inr s'" "s' \<noteq> []" by blast
  with assms(1) show ?thesis by (simp add: leave_component_def Let_def)
qed

lemma returnedI:
  "res = Inr st' \<Longrightarrow> parent_uid_stack st' \<noteq> [] \<Longrightarrow> lvl st' = lvl st \<Longrightarrow> locs st' = locs st
     \<Longrightarrow> returned st res"
  by (simp add: returned_def)

lemma returnedE:
  assumes "returned st res"
  obtains st' where "res = Inr st'" "parent_uid_stack st' \<noteq> []" "lvl st' = lvl st" "locs st' = locs st"
  using assms unfolding returned_def by blast

lemma simple_shape_lvl_stack:
  "parent_uid_stack (simple_shape tool lab uid par st) = parent_uid_stack st"
  "lvl (simple_shape tool lab uid par st) = lvl st"
  "locs (simple_shape tool lab uid par st) = locs st"
  by (simp_all add: simple_shape_frame)

lemma walk_returns:
  "depth_within tool n a \<Longrightarrow> parent_uid_stack st \<noteq> [] \<Longrightarrow> 0 \<le> lvl st
     \<Longrightarrow> returned st (get_sub_shapes n tool a st)"
  "(\<forall>r \<in> set ls. IsReference tool r \<longrightarrow> depth_within tool n (GetReferredShape tool r))
     \<Longrightarrow> parent_uid_stack st \<noteq> [] \<Longrightarrow> 0 \<le> lvl st
     \<Longrightarrow> returned st (components_loop n tool ls st)"
proof (induction n tool a st and n tool ls st
    rule: get_sub_shapes_components_loop.induct)
  case (1 tool lab st)
  then show ?case by simp
next
  case (2 n tool a st)
  let ?uid = "fst (get_uid_from_entry (Entry tool a) st)"
  let ?st1 = "snd (get_uid_from_entry (Entry tool a) st)"
  let ?par = "last (parent_uid_stack ?st1)"
  note deep = "2.prems"(1) and stack = "2.prems"(2) and lv = "2.prems"(3)
  have stack1: "parent_uid_stack ?st1 \<noteq> []"
    using stack by (simp add: get_uid_from_entry_frame)
  show ?case
  proof (cases "IsAssembly tool a")
    case True
    let ?st2 = "assembly tool a ?uid ?par ?st1"
    have eq: "get_sub_shapes (Suc n) tool a st = components_loop n tool (GetComponents tool a) ?st2"
      using True stack1 by (simp add: split_beta)
    from deep True
    have comps: "\<forall>r \<in> set (GetComponents tool a). IsReference tool r \<longrightarrow>
        depth_within tool n (GetReferredShape tool r)"
      by simp
    have s2: "parent_uid_stack ?st2 \<noteq> []" by (simp add: assembly_frame)
    have l2: "0 \<le> lvl ?st2" using lv by (simp add: assembly_frame get_uid_from_entry_frame)
    from "2.IH" [OF prod.collapse stack1 refl True comps s2 l2]
    show ?thesis
    proof (rule returnedE)
      fix st' assume r: "components_loop n tool (GetComponents tool a) ?st2 = Inr st'"
        "parent_uid_stack st' \<noteq> []" "lvl st' = lvl ?st2" "locs st' = locs ?st2"
      have res: "get_sub_shapes (Suc n) tool a st = Inr st'" unfolding eq by (rule r(1))
      show ?thesis
        by (rule returnedI [OF res]) (simp_all add: r assembly_frame get_uid_from_entry_frame)
    qed
  next
    case False
    show ?thesis
    proof (cases "IsSimpleShape tool a")
      case True
      with False stack1
      have eq: "get_sub_shapes (Suc n) tool a st = Inr (simple_shape tool a ?uid ?par ?st1)"
        by (simp add: split_beta)
      show ?thesis
        by (rule returnedI [OF eq])
           (simp_all add: simple_shape_lvl_stack get_uid_from_entry_frame stack)
    next
      case notsimple: False
      with False stack1 have eq: "get_sub_shapes (Suc n) tool a st = Inr ?st1"
        by (simp add: split_beta)
      show ?thesis
        by (rule returnedI [OF eq]) (simp_all add: get_uid_from_entry_frame stack)
    qed
  qed
next
  case (3 n tool st)
  show ?case by (rule returnedI [of _ st]) (simp_all add: "3.prems")
next
  case (4 n tool label rest st)
  note deep = "4.prems"(1) and stack = "4.prems"(2) and lv = "4.prems"(3)
  from deep have deep': "\<forall>r \<in> set rest. IsReference tool r \<longrightarrow>
      depth_within tool n (GetReferredShape tool r)"
    by simp
  show ?case
  proof (cases "IsReference tool label")
    case True
    let ?st0 = "enter_component tool label st"
    from deep True have d0: "depth_within tool n (GetReferredShape tool label)" by simp
    have s0: "parent_uid_stack ?st0 \<noteq> []" using stack by (simp add: enter_component_frame)
    have l0: "0 \<le> lvl ?st0" using lv by (simp add: enter_component_frame)
    from "4.IH"(1) [OF True d0 s0 l0]
    show ?thesis
    proof (rule returnedE)
      fix st1 assume r1: "get_sub_shapes n tool (GetReferredShape tool label) ?st0 = Inr st1"
        "parent_uid_stack st1 \<noteq> []" "lvl st1 = lvl ?st0" "locs st1 = locs ?st0"
      have "locs st1 \<noteq> []" "1 \<le> lvl st1"
        using lv by (simp_all add: r1 enter_component_frame)
      from leave_component_returns [OF this r1(2)] obtain st2
        where r2: "leave_component st1 = Inr st2" "parent_uid_stack st2 \<noteq> []"
          "lvl st2 = lvl st1 - 1" "locs st2 = butlast (locs st1)"
        by blast
      have l2: "0 \<le> lvl st2" "lvl st2 = lvl st" "locs st2 = locs st"
        using lv by (simp_all add: r2 r1 enter_component_frame)
      from "4.IH"(2) [OF True r1(1) r2(1) deep' r2(2) l2(1)]
      show ?thesis
      proof (rule returnedE)
        fix st' assume r3: "components_loop n tool rest st2 = Inr st'"
          "parent_uid_stack st' \<noteq> []" "lvl st' = lvl st2" "locs st' = locs st2"
        show ?thesis
          by (rule returnedI [of _ st']) (simp_all add: True r1(1) r2(1) r3 l2)
      qed
    qed
  next
    case False
    from "4.IH"(3) [OF False deep' stack lv] False show ?thesis by simp
  qed
qed

lemma get_shapes_returns:
  "\<forall>r \<in> set roots. depth_within tool n r \<Longrightarrow> parent_uid_stack st \<noteq> [] \<Longrightarrow> 0 \<le> lvl st
     \<Longrightarrow> \<exists>st'. get_shapes n tool roots st = Inr st'"
proof (induction roots arbitrary: st)
  case Nil
  then show ?case by simp
next
  case (Cons a roots)
  from Cons.prems have "returned st (get_sub_shapes n tool a st)"
    by (intro walk_returns(1)) simp_all
  then show ?case
  proof (rule returnedE)
    fix st1 assume r: "get_sub_shapes n tool a st = Inr st1" "parent_uid_stack st1 \<noteq> []"
      "lvl st1 = lvl st" "locs st1 = locs st"
    from Cons.prems have "\<forall>r \<in> set roots. depth_within tool n r" by simp
    from Cons.IH [OF this r(2)] Cons.prems(3) r(3) obtain st'
      where "get_shapes n tool roots st1 = Inr st'" by auto
    with r(1) show ?thesis by simp
  qed
qed

lemma parse_doc_returns:
  assumes "\<forall>r \<in> set (GetFreeShapes (shape_tool (doc st))). depth_within (shape_tool (doc st)) n r"
    and "parent_uid_stack st \<noteq> []"
  shows "\<exists>st'. parse_doc n st = Inr st'"
  using get_shapes_returns [OF assms(1), of "st\<lparr>locs := [], lvl := 0, output_shapes := [], uid_log := []\<rparr>"]
    assms(2)
  by (simp add: parse_doc_def Let_def)

text \<open>
  C2. When no chain of references below a free shape is deeper than the recursion
  allowance (and the parent stack is not empty, as it never is), the walk ends normally,
  and then: for every simple-shape leaf reached from a free shape through the reference
  labels \<open>rs\<close> there is a part record, stored under a uid drawn in this walk, whose
  shape is the shape of the leaf positioned by the product of the locations of exactly
  the labels of \<open>rs\<close>, that is, the empty location multiplied on the right by the
  location of each of them in root-to-leaf order. Conversely every part record in the
  part dictionary after the walk either was there unchanged before it, or is of this
  form for some such path.
\<close>

theorem part_transform_is_path_product:
  assumes deep: "\<forall>r \<in> set (GetFreeShapes (shape_tool (doc st))). depth_within (shape_tool (doc st)) n r"
    and stack: "parent_uid_stack st \<noteq> []"
  shows "\<exists>st'. parse_doc n st = Inr st'
     \<and> (\<forall>root_item \<in> set (GetFreeShapes (shape_tool (doc st))). \<forall>rs lab.
            descend (shape_tool (doc st)) root_item rs = Some lab
            \<and> IsSimpleShape (shape_tool (doc st)) lab \<and> \<not> IsAssembly (shape_tool (doc st)) lab \<longrightarrow>
            (\<exists>uid \<in> set (uid_log st'). \<exists>p. map_of (part_dict st') uid = Some p
               \<and> p_shape p = BRepBuilderAPI_Transform (GetShape (shape_tool (doc st)) lab)
                    (foldl (\<lambda>loc l. loc * l) 1 (map (GetLocation (shape_tool (doc st))) rs))))
     \<and> (\<forall>uid p. map_of (part_dict st') uid = Some p \<longrightarrow>
            map_of (part_dict st) uid = Some p
            \<or> (\<exists>root_item \<in> set (GetFreeShapes (shape_tool (doc st))). \<exists>rs lab.
                 descend (shape_tool (doc st)) root_item rs = Some lab
                 \<and> IsSimpleShape (shape_tool (doc st)) lab \<and> \<not> IsAssembly (shape_tool (doc st)) lab
                 \<and> p_shape p = BRepBuilderAPI_Transform (GetShape (shape_tool (doc st)) lab)
                      (foldl (\<lambda>loc l. loc * l) 1 (map (GetLocation (shape_tool (doc st))) rs))))"
proof -
  from parse_doc_returns [OF deep stack] obtain st' where run: "parse_doc n st = Inr st'" by blast
  show ?thesis
    by (rule exI [of _ st'], rule conjI [OF run]) (rule path_product_of_result [OF run])
qed

theorem part_transform_is_path_product_witness:
  "\<exists>st'. parse_doc 3 (init nested) = Inr st'
      \<and> (\<exists>uid \<in> set (uid_log st'). \<exists>p. map_of (part_dict st') uid = Some p
            \<and> p_shape p = BRepBuilderAPI_Transform 7 (Moves [2, 6]))
      \<and> (\<forall>uid p. map_of (part_dict st') uid = Some p \<longrightarrow>
            (\<exists>root_item \<in> set (GetFreeShapes (shape_tool nested)). \<exists>rs lab.
                 descend (shape_tool nested) root_item rs = Some lab
                 \<and> IsSimpleShape (shape_tool nested) lab \<and> \<not> IsAssembly (shape_tool nested) lab
                 \<and> p_shape p = BRepBuilderAPI_Transform (GetShape (shape_tool nested) lab)
                      (foldl (\<lambda>loc l. loc * l) 1 (map (GetLocation (shape_tool nested)) rs))))"
proof -
  have d: "doc (init nested) = nested" and e: "part_dict (init nested) = []"
    by (simp_all add: init_def)
  have deep: "\<forall>r \<in> set (GetFreeShapes (shape_tool (doc (init nested)))).
      depth_within (shape_tool (doc (init nested))) 3 r"
    by code_simp
  have stack: "parent_uid_stack (init nested) \<noteq> []" by (simp add: init_def)
  from part_transform_is_path_product [OF deep stack, unfolded d e]
  obtain st' where run: "parse_doc 3 (init nested) = Inr st'"
    and c: "\<forall>root_item \<in> set (GetFreeShapes (shape_tool nested)). \<forall>rs lab.
      descend (shape_tool nested) root_item rs = Some lab
      \<and> IsSimpleShape (shape_tool nested) lab \<and> \<not> IsAssembly (shape_tool nested) lab \<longrightarrow>
      (\<exists>uid \<in> set (uid_log st'). \<exists>p. map_of (part_dict st') uid = Some p
         \<and> p_shape p = BRepBuilderAPI_Transform (GetShape (shape_tool nested) lab)
              (foldl (\<lambda>loc l. loc * l) 1 (map (GetLocation (shape_tool nested)) rs)))"
    and s: "\<forall>uid p. map_of (part_dict st') uid = Some p \<longrightarrow>
      map_of [] uid = Some p
      \<or> (\<exists>root_item \<in> set (GetFreeShapes (shape_tool nested)). \<exists>rs lab.
           descend (shape_tool nested) root_item rs = Some lab
           \<and> IsSimpleShape (shape_tool nested) lab \<and> \<not> IsAssembly (shape_tool nested) lab
           \<and> p_shape p = BRepBuilderAPI_Transform (GetShape (shape_tool nested) lab)
                (foldl (\<lambda>loc l. loc * l) 1 (map (GetLocation (shape_tool nested)) rs)))"
    by blast
  have root1: "1 \<in> set (GetFreeShapes (shape_tool nested))"
    by (simp add: nested_def no_labels_def)
  have leaf: "descend (shape_tool nested) 1 [2, 6] = Some 4
      \<and> IsSimpleShape (shape_tool nested) 4 \<and> \<not> IsAssembly (shape_tool nested) 4"
    by (simp add: nested_def no_labels_def)
  have prod: "BRepBuilderAPI_Transform (GetShape (shape_tool nested) 4)
      (foldl (\<lambda>loc l. loc * l) 1 (map (GetLocation (shape_tool nested)) [2, 6]))
      = BRepBuilderAPI_Transform 7 (Moves [2, 6])"
    by (simp add: nested_def no_labels_def one_moves_def times_moves_def)
  from c [rule_format, OF root1 leaf]
  have a: "\<exists>uid \<in> set (uid_log st'). \<exists>p. map_of (part_dict st') uid = Some p
      \<and> p_shape p = BRepBuilderAPI_Transform 7 (Moves [2, 6])"
    unfolding prod .
  from s have b: "\<forall>uid p. map_of (part_dict st') uid = Some p \<longrightarrow>
      (\<exists>root_item \<in> set (GetFreeShapes (shape_tool nested)). \<exists>rs lab.
           descend (shape_tool nested) root_item rs = Some lab
           \<and> IsSimpleShape (shape_tool nested) lab \<and> \<not> IsAssembly (shape_tool nested) lab
           \<and> p_shape p = BRepBuilderAPI_Transform (GetShape (shape_tool nested) lab)
                (foldl (\<lambda>loc l. loc * l) 1 (map (GetLocation (shape_tool nested)) rs)))"
    by simp
  show ?thesis
    by (rule exI [of _ st']) (intro conjI run a b)
qed

subsection \<open>What becomes of the uids of a walk\<close>

lemma table_okD:
  assumes "table_ok st"
  shows "log_ok st" and "distinct (map fst (label_dict st))"
    and "k \<in> fst ` set (label_dict st) \<Longrightarrow> \<exists>e v. k = uid_of e v \<and> v \<le> serial st e"
  using assms unfolding table_ok_def by blast+

lemma table_okI:
  assumes "log_ok st" and "distinct (map fst (label_dict st))"
    and "\<And>k. k \<in> fst ` set (label_dict st) \<Longrightarrow> \<exists>e v. k = uid_of e v \<and> v \<le> serial st e"
  shows "table_ok st"
  using assms unfolding table_ok_def by blast

lemma recorded_uids_append:
  "length new1 = length uses1 \<Longrightarrow>
     recorded_uids (new1 @ new2) (uses1 @ uses2) = recorded_uids new1 uses1 @ recorded_uids new2 uses2"
  by (simp add: recorded_uids_def)

lemma recorded_uids_subset: "set (recorded_uids new uses) \<subseteq> set new"
  unfolding recorded_uids_def by (auto dest: set_zip_leftD)

lemma update_fresh: "k \<notin> fst ` set al \<Longrightarrow> AList.update k v al = al @ [(k, v)]"
  by (induction al) auto

lemma loggedI:
  assumes "table_ok st'" and "uid_log st' = uid_log st @ new" and "length new = length uses"
    and "set new \<inter> fst ` set (label_dict st) = {}"
    and "map fst (label_dict st') = map fst (label_dict st) @ recorded_uids new uses"
  shows "logged st st' uses"
  using assms unfolding logged_def by blast

lemma loggedE:
  assumes "logged st st' uses"
  obtains new where "table_ok st'" "uid_log st' = uid_log st @ new" "length new = length uses"
    "set new \<inter> fst ` set (label_dict st) = {}"
    "map fst (label_dict st') = map fst (label_dict st) @ recorded_uids new uses"
  using assms unfolding logged_def by blast

lemma logged_refl: "table_ok st \<Longrightarrow> logged st st []"
  by (rule loggedI [of _ _ "[]"]) (simp_all add: recorded_uids_def)

lemma logged_trans:
  assumes a: "logged st st1 uses1" and b: "logged st1 st2 uses2"
  shows "logged st st2 (uses1 @ uses2)"
proof -
  from a obtain new1 where a': "uid_log st1 = uid_log st @ new1" "length new1 = length uses1"
    "set new1 \<inter> fst ` set (label_dict st) = {}"
    "map fst (label_dict st1) = map fst (label_dict st) @ recorded_uids new1 uses1"
    by (rule loggedE)
  from b obtain new2 where b': "table_ok st2" "uid_log st2 = uid_log st1 @ new2"
    "length new2 = length uses2" "set new2 \<inter> fst ` set (label_dict st1) = {}"
    "map fst (label_dict st2) = map fst (label_dict st1) @ recorded_uids new2 uses2"
    by (rule loggedE)
  have keys1: "fst ` set (label_dict st) \<subseteq> fst ` set (label_dict st1)"
  proof -
    have "set (map fst (label_dict st)) \<subseteq> set (map fst (label_dict st1))"
      unfolding a'(4) by simp
    then show ?thesis by simp
  qed
  show ?thesis
  proof (rule loggedI [of _ _ "new1 @ new2"])
    show "table_ok st2" by (rule b'(1))
    show "uid_log st2 = uid_log st @ new1 @ new2" by (simp add: b'(2) a'(1))
    show "length (new1 @ new2) = length (uses1 @ uses2)" by (simp add: a'(2) b'(3))
    have "set new2 \<inter> fst ` set (label_dict st) = {}" using b'(4) keys1 by blast
    with a'(3) show "set (new1 @ new2) \<inter> fst ` set (label_dict st) = {}"
      by (simp add: Int_Un_distrib2)
    show "map fst (label_dict st2) = map fst (label_dict st) @ recorded_uids (new1 @ new2) (uses1 @ uses2)"
      by (simp add: b'(5) a'(4) recorded_uids_append [OF a'(2)])
  qed
qed

lemma table_ok_cong:
  assumes "table_ok st" and sh: "share_dict st' = share_dict st" and lg: "uid_log st' = uid_log st"
    and ld: "label_dict st' = label_dict st"
  shows "table_ok st'"
proof (rule table_okI)
  show "log_ok st'" by (rule log_ok_cong [OF table_okD(1) [OF assms(1)] sh lg])
  show "distinct (map fst (label_dict st'))" using table_okD(2) [OF assms(1)] by (simp add: ld)
  have ser: "serial st' = serial st" by (rule ext) (simp add: serial_def sh)
  fix k assume "k \<in> fst ` set (label_dict st')"
  then have "k \<in> fst ` set (label_dict st)" by (simp add: ld)
  from table_okD(3) [OF assms(1) this] show "\<exists>e v. k = uid_of e v \<and> v \<le> serial st' e"
    by (simp add: ser)
qed

lemma logged_cong_right:
  assumes "logged st st1 uses" and "share_dict st' = share_dict st1" and "uid_log st' = uid_log st1"
    and "label_dict st' = label_dict st1"
  shows "logged st st' uses"
proof -
  from assms(1) obtain new where n: "table_ok st1" "uid_log st1 = uid_log st @ new"
    "length new = length uses" "set new \<inter> fst ` set (label_dict st) = {}"
    "map fst (label_dict st1) = map fst (label_dict st) @ recorded_uids new uses"
    by (rule loggedE)
  show ?thesis
    by (rule loggedI [of _ _ new])
       (simp_all add: table_ok_cong [OF n(1) assms(2-4)] assms(3,4) n)
qed

lemma logged_cong_left:
  assumes "logged st1 st' uses" and "uid_log st = uid_log st1" and "label_dict st = label_dict st1"
  shows "logged st st' uses"
proof -
  from assms(1) obtain new where n: "table_ok st'" "uid_log st' = uid_log st1 @ new"
    "length new = length uses" "set new \<inter> fst ` set (label_dict st1) = {}"
    "map fst (label_dict st') = map fst (label_dict st1) @ recorded_uids new uses"
    by (rule loggedE)
  show ?thesis
    by (rule loggedI [of _ _ new]) (simp_all add: assms(2,3) n)
qed

text \<open>Drawing a uid, and drawing one and storing a label record under it.\<close>

lemma table_ok_get_uid:
  assumes "table_ok st"
  shows "table_ok (snd (get_uid_from_entry e st))"
    and "fst (get_uid_from_entry e st) \<notin> fst ` set (label_dict st)"
proof -
  let ?st' = "snd (get_uid_from_entry e st)"
  note lo = table_okD(1) [OF assms] and d = table_okD(2) [OF assms]
    and iss = table_okD(3) [OF assms]
  have "\<exists>e' v. k = uid_of e' v \<and> v \<le> serial ?st' e'" if "k \<in> fst ` set (label_dict st)" for k
  proof -
    from iss [OF that] obtain e' v where ev: "k = uid_of e' v" "v \<le> serial st e'" by blast
    then have "v \<le> serial ?st' e'" by (auto simp: serial_after)
    with ev(1) show ?thesis by blast
  qed
  with log_ok_get_uid [OF lo, of e] d show "table_ok ?st'"
    by (intro table_okI) (simp_all add: get_uid_from_entry_frame)
  show "fst (get_uid_from_entry e st) \<notin> fst ` set (label_dict st)"
  proof
    assume "fst (get_uid_from_entry e st) \<in> fst ` set (label_dict st)"
    from iss [OF this] obtain e' v
      where ev: "fst (get_uid_from_entry e st) = uid_of e' v" "v \<le> serial st e'" by blast
    from ev(1) have "uid_of e (serial st e + 1) = uid_of e' v" by (simp add: get_uid_from_entry_eq)
    from uid_of_inj [OF this] ev(2) show False by auto
  qed
qed

lemma logged_record:
  assumes ok: "table_ok st"
    and sh: "share_dict st2 = share_dict (snd (get_uid_from_entry e st))"
    and lg: "uid_log st2 = uid_log (snd (get_uid_from_entry e st))"
    and ld: "label_dict st2 = AList.update (fst (get_uid_from_entry e st)) r (label_dict st)"
  shows "logged st st2 [Recorded]"
proof -
  let ?uid = "fst (get_uid_from_entry e st)"
  let ?st1 = "snd (get_uid_from_entry e st)"
  note fresh = table_ok_get_uid(2) [OF ok, of e]
  have ld': "label_dict st2 = label_dict st @ [(?uid, r)]"
    unfolding ld by (rule update_fresh [OF fresh])
  note t1 = table_ok_get_uid(1) [OF ok, of e]
  note lo = table_okD(1) [OF t1] and d = table_okD(2) [OF ok]
  have iss: "\<exists>e' v. k = uid_of e' v \<and> v \<le> serial ?st1 e'" if "k \<in> fst ` set (label_dict st)" for k
    using table_okD(3) [OF t1, of k] that by (simp add: get_uid_from_entry_frame)
  have ser: "serial st2 = serial ?st1" by (rule ext) (simp add: serial_def sh)
  have "\<exists>e' v. k = uid_of e' v \<and> v \<le> serial st2 e'" if "k \<in> fst ` set (label_dict st2)" for k
  proof (cases "k = ?uid")
    case True
    have "?uid = uid_of e (serial st e + 1)" by (simp add: get_uid_from_entry_eq)
    moreover have "serial st e + 1 \<le> serial st2 e" by (simp add: ser serial_after)
    ultimately show ?thesis using True by blast
  next
    case False
    with that have "k \<in> fst ` set (label_dict st)" by (auto simp: ld')
    from iss [OF this] show ?thesis by (simp add: ser)
  qed
  moreover have "log_ok st2" by (rule log_ok_cong [OF lo sh lg])
  moreover have "distinct (map fst (label_dict st2))" using d fresh by (simp add: ld')
  ultimately have t2: "table_ok st2" by (intro table_okI)
  show ?thesis
  proof (rule loggedI [of _ _ "[?uid]"])
    show "table_ok st2" by (rule t2)
    show "uid_log st2 = uid_log st @ [?uid]" by (simp add: lg get_uid_log)
    show "length [?uid] = length [Recorded]" by simp
    show "set [?uid] \<inter> fst ` set (label_dict st) = {}" using fresh by simp
    show "map fst (label_dict st2) = map fst (label_dict st) @ recorded_uids [?uid] [Recorded]"
      by (simp add: ld' recorded_uids_def)
  qed
qed

lemma logged_no_record:
  assumes ok: "table_ok st" and "u \<noteq> Recorded"
    and sh: "share_dict st2 = share_dict (snd (get_uid_from_entry e st))"
    and lg: "uid_log st2 = uid_log (snd (get_uid_from_entry e st))"
    and ld: "label_dict st2 = label_dict st"
  shows "logged st st2 [u]"
proof (rule loggedI [of _ _ "[fst (get_uid_from_entry e st)]"])
  show "table_ok st2"
    by (rule table_ok_cong [OF table_ok_get_uid(1) [OF ok, of e] sh lg])
       (simp add: ld get_uid_from_entry_frame)
  show "uid_log st2 = uid_log st @ [fst (get_uid_from_entry e st)]" by (simp add: lg get_uid_log)
  show "length [fst (get_uid_from_entry e st)] = length [u]" by simp
  show "set [fst (get_uid_from_entry e st)] \<inter> fst ` set (label_dict st) = {}"
    using table_ok_get_uid(2) [OF ok, of e] by simp
  show "map fst (label_dict st2) = map fst (label_dict st) @ recorded_uids [fst (get_uid_from_entry e st)] [u]"
    using assms(2) by (simp add: ld recorded_uids_def)
qed

lemma logged_table_ok: "logged st st' uses \<Longrightarrow> table_ok st'"
  by (erule loggedE)

lemma logged_Cons: "logged st st1 [u] \<Longrightarrow> logged st1 st2 uses \<Longrightarrow> logged st st2 (u # uses)"
  using logged_trans [of st st1 "[u]" st2 uses] by simp

lemma logged_walk:
  "get_sub_shapes n tool a st = Inr st' \<Longrightarrow> table_ok st \<Longrightarrow> logged st st' (uid_uses n tool a)"
  "components_loop n tool ls st = Inr st' \<Longrightarrow> table_ok st
     \<Longrightarrow> logged st st' (uid_uses_loop n tool ls)"
proof (induction n tool a st and n tool ls st arbitrary: st' and st'
    rule: get_sub_shapes_components_loop.induct)
  case (1 tool lab st)
  then show ?case by simp
next
  case (2 n tool a st)
  let ?uid = "fst (get_uid_from_entry (Entry tool a) st)"
  let ?st1 = "snd (get_uid_from_entry (Entry tool a) st)"
  let ?par = "last (parent_uid_stack ?st1)"
  note run = "2.prems"(1) and ok = "2.prems"(2)
  from run have stack: "parent_uid_stack ?st1 \<noteq> []"
    by (auto simp: split_beta split: if_splits)
  show ?case
  proof (cases "IsAssembly tool a")
    case True
    let ?st2 = "assembly tool a ?uid ?par ?st1"
    from True run stack
    have loop: "components_loop n tool (GetComponents tool a) ?st2 = Inr st'"
      by (simp add: split_beta)
    have rec: "logged st ?st2 [Recorded]"
      by (rule logged_record [OF ok, of _ "Entry tool a"])
         (simp_all add: assembly_frame get_uid_from_entry_frame)
    from "2.IH" [OF prod.collapse stack refl True loop logged_table_ok [OF rec]]
    have "logged ?st2 st' (uid_uses_loop n tool (GetComponents tool a))" .
    from logged_Cons [OF rec this] True show ?thesis by simp
  next
    case False
    show ?thesis
    proof (cases "IsSimpleShape tool a")
      case True
      with False run stack have st': "st' = simple_shape tool a ?uid ?par ?st1"
        by (simp add: split_beta)
      have "logged st st' [Recorded]"
        by (rule logged_record [OF ok, of _ "Entry tool a"])
           (simp_all add: st' simple_shape_frame store_part_frame get_uid_from_entry_frame)
      with False True show ?thesis by simp
    next
      case notsimple: False
      with False run stack have st': "st' = ?st1" by (simp add: split_beta)
      have "logged st st' [Unrecorded]"
        by (rule logged_no_record [OF ok, of _ _ "Entry tool a"])
           (simp_all add: st' get_uid_from_entry_frame)
      with False notsimple show ?thesis by simp
    qed
  qed
next
  case (3 n tool st)
  then show ?case by (simp add: logged_refl)
next
  case (4 n tool label rest st)
  note run = "4.prems"(1) and ok = "4.prems"(2)
  show ?case
  proof (cases "IsReference tool label")
    case True
    let ?st0 = "enter_component tool label st"
    from True run obtain st1 st2
      where s1: "get_sub_shapes n tool (GetReferredShape tool label) ?st0 = Inr st1"
        and s2: "leave_component st1 = Inr st2"
        and s3: "components_loop n tool rest st2 = Inr st'"
      by (auto split: sum.splits)
    have l0: "logged st ?st0 [ForReference]"
      by (rule logged_no_record [OF ok, of _ _ "Entry tool label"])
         (simp_all add: enter_component_frame)
    from "4.IH"(1) [OF True s1 logged_table_ok [OF l0]]
    have l1: "logged ?st0 st1 (uid_uses n tool (GetReferredShape tool label))" .
    have l12: "logged ?st0 st2 (uid_uses n tool (GetReferredShape tool label))"
      by (rule logged_cong_right [OF l1]) (simp_all add: leave_component_frame [OF s2])
    from "4.IH"(2) [OF True s1 s2 s3 logged_table_ok [OF l12]]
    have l3: "logged st2 st' (uid_uses_loop n tool rest)" .
    from logged_Cons [OF l0 logged_trans [OF l12 l3]] True show ?thesis by simp
  next
    case False
    with run have lp: "components_loop n tool rest st = Inr st'" by simp
    from "4.IH"(3) [OF False lp ok] False show ?thesis by simp
  qed
qed

lemma logged_roots:
  "get_shapes n tool roots st = Inr st' \<Longrightarrow> table_ok st
     \<Longrightarrow> logged st st' (concat (map (uid_uses n tool) roots))"
proof (induction roots arbitrary: st)
  case Nil
  then show ?case by (simp add: logged_refl)
next
  case (Cons a roots)
  from Cons.prems(1) obtain st1
    where s1: "get_sub_shapes n tool a st = Inr st1" and s2: "get_shapes n tool roots st1 = Inr st'"
    by (auto split: sum.splits)
  note l1 = logged_walk(1) [OF s1 Cons.prems(2)]
  from logged_trans [OF l1 Cons.IH [OF s2 logged_table_ok [OF l1]]] show ?case by simp
qed

lemma length_recorded_uids:
  "length new = length uses \<Longrightarrow>
     length (recorded_uids new uses) = length (filter (\<lambda>u. u = Recorded) uses)"
  unfolding recorded_uids_def by (induction new uses rule: list_induct2) simp_all

lemma zip_same_key:
  assumes "distinct xs" and "(x, a) \<in> set (zip xs ys)" and "(x, b) \<in> set (zip xs ys)"
  shows "a = b"
proof -
  have "distinct (map fst (zip xs ys))"
    using assms(1) by (simp add: map_fst_zip_take distinct_take)
  from eq_key_imp_eq_value [OF this assms(2,3)] show ?thesis .
qed

lemma unrecorded_not_key:
  assumes d: "distinct new" and z: "(u, x) \<in> set (zip new uses)" and x: "x \<noteq> Recorded"
  shows "u \<notin> set (recorded_uids new uses)"
proof
  assume "u \<in> set (recorded_uids new uses)"
  then have "(u, Recorded) \<in> set (zip new uses)"
    unfolding recorded_uids_def by auto
  from zip_same_key [OF d this z] x show False by simp
qed

text \<open>
  C5, as amended. When the walk is within the recursion allowance, and every key of the
  label dictionary is a uid issued before (as in a new model, and again after every
  walk), the walk ends normally and: the uids that the allocator returns during it are
  pairwise distinct; there is one of them for each use listed by \<open>uid_uses\<close>; the
  label dictionary gains exactly one record for each uid drawn at the visit of an
  assembly or of a simple shape, under that uid and in this order, so that its length
  grows by the number of these uids; and no uid drawn for a component reference, or at
  the visit of a label that is neither an assembly nor a simple shape, is a key of the
  label dictionary.
\<close>

theorem walk_uids_distinct_label_records_exact:
  assumes deep: "\<forall>r \<in> set (GetFreeShapes (shape_tool (doc st))). depth_within (shape_tool (doc st)) n r"
    and stack: "parent_uid_stack st \<noteq> []"
    and keys: "distinct (map fst (label_dict st))"
    and issued: "\<forall>k \<in> fst ` set (label_dict st). \<exists>e v. k = uid_of e v \<and> v \<le> serial st e"
  shows "\<exists>st'. parse_doc n st = Inr st'
      \<and> distinct (uid_log st')
      \<and> length (uid_log st')
          = length (concat (map (uid_uses n (shape_tool (doc st))) (GetFreeShapes (shape_tool (doc st)))))
      \<and> map fst (label_dict st')
          = map fst (label_dict st)
            @ recorded_uids (uid_log st')
                (concat (map (uid_uses n (shape_tool (doc st))) (GetFreeShapes (shape_tool (doc st)))))
      \<and> length (label_dict st')
          = length (label_dict st)
            + length (filter (\<lambda>u. u = Recorded)
                (concat (map (uid_uses n (shape_tool (doc st))) (GetFreeShapes (shape_tool (doc st))))))
      \<and> (\<forall>(u, x) \<in> set (zip (uid_log st')
                (concat (map (uid_uses n (shape_tool (doc st))) (GetFreeShapes (shape_tool (doc st)))))).
            x \<noteq> Recorded \<longrightarrow> u \<notin> fst ` set (label_dict st'))
      \<and> distinct (map fst (label_dict st'))
      \<and> (\<forall>k \<in> fst ` set (label_dict st'). \<exists>e v. k = uid_of e v \<and> v \<le> serial st' e)"
proof -
  let ?tool = "shape_tool (doc st)"
  let ?uses = "concat (map (uid_uses n ?tool) (GetFreeShapes ?tool))"
  let ?st0 = "st\<lparr>locs := [], lvl := 0, output_shapes := [], uid_log := []\<rparr>"
  from parse_doc_returns [OF deep stack] obtain st' where run: "parse_doc n st = Inr st'" by blast
  then have run0: "get_shapes n ?tool (GetFreeShapes ?tool) ?st0 = Inr st'"
    by (simp add: parse_doc_def Let_def)
  have ser0: "serial ?st0 = serial st" by (rule ext) (simp add: serial_def)
  have "table_ok ?st0"
  proof (rule table_okI)
    show "log_ok ?st0" by (simp add: log_ok_def)
    show "distinct (map fst (label_dict ?st0))" using keys by simp
    fix k assume "k \<in> fst ` set (label_dict ?st0)"
    then have "k \<in> fst ` set (label_dict st)" by simp
    with issued show "\<exists>e v. k = uid_of e v \<and> v \<le> serial ?st0 e"
      unfolding ser0 by blast
  qed
  from logged_roots [OF run0 this] obtain new
    where ok': "table_ok st'" and lg: "uid_log st' = uid_log ?st0 @ new"
      and len: "length new = length ?uses"
      and dis: "set new \<inter> fst ` set (label_dict ?st0) = {}"
      and ks: "map fst (label_dict st') = map fst (label_dict ?st0) @ recorded_uids new ?uses"
    by (rule loggedE)
  from lg have new: "new = uid_log st'" by simp
  have d: "distinct (uid_log st')"
    using table_okD(1) [OF ok'] by (simp add: log_ok_def)
  have ks': "map fst (label_dict st') = map fst (label_dict st) @ recorded_uids (uid_log st') ?uses"
    using ks by (simp add: new)
  have "length (map fst (label_dict st'))
      = length (label_dict st) + length (filter (\<lambda>u. u = Recorded) ?uses)"
    unfolding ks' using length_recorded_uids [OF len] by (simp add: new)
  then have cnt: "length (label_dict st')
      = length (label_dict st) + length (filter (\<lambda>u. u = Recorded) ?uses)"
    by simp
  have nokey: "u \<notin> fst ` set (label_dict st')"
    if "(u, x) \<in> set (zip (uid_log st') ?uses)" "x \<noteq> Recorded" for u x
  proof -
    from that(1) have "u \<in> set (uid_log st')" by (rule set_zip_leftD)
    with dis have a: "u \<notin> fst ` set (label_dict st)" by (auto simp: new)
    from unrecorded_not_key [OF d that] have b: "u \<notin> set (recorded_uids (uid_log st') ?uses)" .
    have "fst ` set (label_dict st') = set (map fst (label_dict st'))" by simp
    also have "\<dots> = fst ` set (label_dict st) \<union> set (recorded_uids (uid_log st') ?uses)"
      unfolding ks' by simp
    finally show ?thesis using a b by simp
  qed
  have iss': "\<forall>k \<in> fst ` set (label_dict st'). \<exists>e v. k = uid_of e v \<and> v \<le> serial st' e"
    using table_okD(3) [OF ok'] by blast
  have len': "length (uid_log st') = length ?uses" using len by (simp add: new)
  have nk: "\<forall>(u, x) \<in> set (zip (uid_log st') ?uses). x \<noteq> Recorded \<longrightarrow> u \<notin> fst ` set (label_dict st')"
    using nokey by blast
  note dk = table_okD(2) [OF ok']
  show ?thesis
    by (rule exI [of _ st']) (intro conjI run d len' ks' cnt nk dk iss')
qed

theorem walk_uids_distinct_label_records_exact_witness:
  "\<exists>st'. parse_doc 3 (init nested) = Inr st' \<and> distinct (uid_log st')
      \<and> length (uid_log st') = 7 \<and> length (label_dict st') = 4"
proof -
  have deep: "\<forall>r \<in> set (GetFreeShapes (shape_tool (doc (init nested)))).
      depth_within (shape_tool (doc (init nested))) 3 r"
    by code_simp
  have stack: "parent_uid_stack (init nested) \<noteq> []" by (simp add: init_def)
  have keys: "distinct (map fst (label_dict (init nested)))" by (simp add: init_def)
  have issued: "\<forall>k \<in> fst ` set (label_dict (init nested)).
      \<exists>e v. k = uid_of e v \<and> v \<le> serial (init nested) e"
    by (simp add: init_def)
  have n7: "length (concat (map (uid_uses 3 (shape_tool (doc (init nested))))
      (GetFreeShapes (shape_tool (doc (init nested)))))) = 7"
    by code_simp
  have n4: "length (filter (\<lambda>u. u = Recorded) (concat (map (uid_uses 3 (shape_tool (doc (init nested))))
      (GetFreeShapes (shape_tool (doc (init nested))))))) = 4"
    by code_simp
  have e: "length (label_dict (init nested)) = 0" by (simp add: init_def)
  from walk_uids_distinct_label_records_exact [OF deep stack keys issued]
  obtain st' where "parse_doc 3 (init nested) = Inr st'" "distinct (uid_log st')"
    "length (uid_log st') = 7" "length (label_dict st') = 4"
    unfolding n7 n4 e by auto
  then show ?thesis by blast
qed

text \<open>
  C5, as stated, fails on the document \<open>nested\<close>: the walk of a new model returns
  seven uids and leaves four label records.
\<close>

theorem label_count_counterexample:
  "\<not> isl (parse_doc 3 (init nested))
   \<and> length (label_dict (projr (parse_doc 3 (init nested)))) = 4
   \<and> length (uid_log (projr (parse_doc 3 (init nested)))) = 7"
  by code_simp

end
